theory Spec2Isabelle
  imports Main "HOL-Library.Word"
begin

section \<open>Data model of the scheduler (kernel/scheduler.cpp)\<close>

text \<open>
  A guest thread handle (\<open>std::shared_ptr<type::KThread>\<close>) is modelled by its identity
  \<open>tid\<close>; the thread objects live in a store. Pointer equality of handles is equality of
  identities. Tick counters are \<open>u64\<close> and wrap around; priorities (\<open>i8\<close>) and core ids
  (\<open>u8\<close>) are only stored and compared, never computed with, so they are \<open>int\<close> and
  \<open>nat\<close>. The affinity mask is a \<open>std::bitset\<close> over the cores.
\<close>

type_synonym u64 = "64 word"
type_synonym tid = nat

record KThread =
  priority :: int
  affinityMask :: "bool list"
  coreId :: nat
  averageTimeslice :: u64
  timesliceStart :: u64
  isPreempted :: bool
  forceYield :: bool

record CoreContext =
  id_core :: nat
  preemptionPriority :: int
  queue :: "tid list"

text \<open>
  What the scheduler does to its collaborators is recorded in a trace:
  \<open>thread->SendSignal(YieldSignal)\<close>, \<open>thread->wakeCondition.notify_one()\<close>,
  \<open>timer_settime\<close> on the thread's preemption timer (armed for one
  \<open>PreemptiveTimeslice\<close>, or disarmed with a zero spec) and the three debug lines of
  \<open>LoadBalance\<close>.
\<close>

datatype event =
    SendSignal tid
  | notify_one tid
  | timer_arm tid
  | timer_disarm tid
  | Debug_migrated tid nat nat
  | Debug_late tid nat
  | Debug_early tid nat

record Scheduler =
  cores :: "CoreContext list"
  parkedQueue :: "tid list"
  threads :: "tid \<Rightarrow> KThread"
  YieldPending :: "tid \<Rightarrow> bool"
  trace :: "event list"

text \<open>
  \<open>cores.at(i)\<close> throws \<open>std::out_of_range\<close>; \<open>Rotate\<close> and \<open>LoadBalance\<close> throw the
  scheduler's own exceptions; \<open>front()\<close> of an empty list and a dereferenced null handle
  are undefined behaviour, kept apart as errors of their own. An operation that throws
  returns the error together with the state it leaves behind.
\<close>

datatype error =
    OutOfRange
  | InvalidSchedulerState
  | ExternalMigrationRequiresInsert
  | EmptyFront
  | NullDereference

type_synonym 'a result = "(error \<times> Scheduler) + 'a"

subsection \<open>State helpers\<close>

definition emit :: "event \<Rightarrow> Scheduler \<Rightarrow> Scheduler" where
  "emit e st = st\<lparr>trace := trace st @ [e]\<rparr>"

definition upd_thread :: "tid \<Rightarrow> (KThread \<Rightarrow> KThread) \<Rightarrow> Scheduler \<Rightarrow> Scheduler" where
  "upd_thread t f st = st\<lparr>threads := (threads st)(t := f (threads st t))\<rparr>"

definition set_queue :: "nat \<Rightarrow> tid list \<Rightarrow> Scheduler \<Rightarrow> Scheduler" where
  "set_queue c q st = st\<lparr>cores := (cores st)[c := (cores st ! c)\<lparr>queue := q\<rparr>]\<rparr>"

definition prio :: "Scheduler \<Rightarrow> tid \<Rightarrow> int" where
  "prio st t = priority (threads st t)"

text \<open>\<open>bitset::test\<close> and \<open>bitset::count\<close>.\<close>

definition test :: "bool list \<Rightarrow> nat \<Rightarrow> bool" where
  "test m i = (i < length m \<and> m ! i)"

definition count :: "bool list \<Rightarrow> nat" where
  "count m = length (filter (\<lambda>b. b) m)"

subsection \<open>The standard algorithms on the queue\<close>

text \<open>
  Modelled from the spec: the comparator \<open>KThread::IsHigherPriority\<close> is declared in
  \<open>types/KThread.h\<close>, which is not among the sources; the spec gives
  \<open>IsHigherPriority(a, b) \<Leftrightarrow> a.priority < b.priority\<close>, used by \<open>std::upper_bound\<close> as
  \<open>comp(value, element)\<close>.
\<close>

definition IsHigherPriority :: "Scheduler \<Rightarrow> int \<Rightarrow> tid \<Rightarrow> bool" where
  "IsHigherPriority st p it = (p < prio st it)"

text \<open>
  \<open>std::upper_bound\<close> and \<open>std::lower_bound\<close> are the library's binary search over
  positions: \<open>bound_search goRight xs first count\<close> probes the middle position of
  \<open>[first, first + count)\<close> and continues right of it when \<open>goRight\<close> holds there, left
  otherwise. A position is an index into the list, \<open>length xs\<close> being \<open>end()\<close>.
\<close>

function bound_search :: "('a \<Rightarrow> bool) \<Rightarrow> 'a list \<Rightarrow> nat \<Rightarrow> nat \<Rightarrow> nat" where
  "bound_search goRight xs first cnt =
     (if cnt = 0 then first
      else if goRight (xs ! (first + cnt div 2))
           then bound_search goRight xs (first + cnt div 2 + 1) (cnt - (cnt div 2 + 1))
           else bound_search goRight xs first (cnt div 2))"
  by pat_completeness auto
termination
  by (relation "measure (\<lambda>(g, xs, first, cnt). cnt)") auto

declare bound_search.simps [simp del]

definition upper_bound :: "Scheduler \<Rightarrow> tid list \<Rightarrow> int \<Rightarrow> nat" where
  "upper_bound st q p = bound_search (\<lambda>it. \<not> IsHigherPriority st p it) q 0 (length q)"

definition lower_bound :: "Scheduler \<Rightarrow> tid list \<Rightarrow> int \<Rightarrow> nat" where
  "lower_bound st q p = bound_search (\<lambda>it. prio st it < p) q 0 (length q)"

text \<open>\<open>std::find\<close>: the position of the first occurrence, \<open>length xs\<close> when there is none.\<close>

fun find_iter :: "'a list \<Rightarrow> 'a \<Rightarrow> nat" where
  "find_iter [] x = 0"
| "find_iter (y # ys) x = (if y = x then 0 else Suc (find_iter ys x))"

text \<open>\<open>list::insert(pos, x)\<close>, \<open>list::erase(pos)\<close> and \<open>q.splice(pos, q, q.begin())\<close>, which
  moves the front element before \<open>pos\<close> (nothing moves when \<open>pos\<close> is the front or the
  position after it).\<close>

definition insert_at :: "nat \<Rightarrow> 'a \<Rightarrow> 'a list \<Rightarrow> 'a list" where
  "insert_at i x xs = take i xs @ x # drop i xs"

definition erase_at :: "nat \<Rightarrow> 'a list \<Rightarrow> 'a list" where
  "erase_at i xs = take i xs @ drop (Suc i) xs"

definition splice_front :: "nat \<Rightarrow> 'a list \<Rightarrow> 'a list" where
  "splice_front pos xs =
     (if pos = 0 then xs else take (pos - 1) (tl xs) @ hd xs # drop (pos - 1) (tl xs))"

text \<open>The moving average as the three places of the source compute it, in \<open>u64\<close>:
  \<open>averageTimeslice / 4 + 3 * (GetTimeTicks() - timesliceStart / 4)\<close>.\<close>

definition timeslice_average :: "u64 \<Rightarrow> u64 \<Rightarrow> u64 \<Rightarrow> u64" where
  "timeslice_average avg now start = avg div 4 + 3 * (now - start div 4)"

section \<open>InsertThread\<close>

text \<open>\<open>self\<close> is \<open>state.thread\<close>, the guest thread that makes the call.\<close>

definition InsertThread :: "tid \<Rightarrow> tid \<Rightarrow> Scheduler \<Rightarrow> Scheduler result" where
  "InsertThread self thread st =
     (let c = coreId (threads st thread) in
      if \<not> c < length (cores st) then Inl (OutOfRange, st)
      else
        let q = queue (cores st ! c);
            nextThread = upper_bound st q (prio st thread)
        in if nextThread = 0 then
             (let st1 =
                (if q \<noteq> [] then
                   (let st2 =
                      (if self = thread then
                         (let sa = upd_thread (hd q) (\<lambda>k. k\<lparr>forceYield := True\<rparr>) st;
                              q1 = splice_front (upper_bound sa q (prio sa thread)) q
                          in set_queue c (thread # q1) sa)
                       else set_queue c (insert_at 1 thread q) st);
                        front = hd (queue (cores st2 ! c))
                    in if self \<noteq> front then emit (SendSignal front) st2
                       else st2\<lparr>YieldPending := (YieldPending st2)(self := True)\<rparr>)
                 else set_queue c [thread] st)
              in Inr (if thread \<noteq> self then emit (notify_one thread) st1 else st1))
           else Inr (set_queue c (insert_at nextThread thread q) st))"

section \<open>RemoveThread\<close>

text \<open>The block under the core mutex: erase the caller from its core's queue; when it
  was the front, account its timeslice and wake the new front.\<close>

definition erase_self :: "tid \<Rightarrow> u64 \<Rightarrow> Scheduler \<Rightarrow> Scheduler" where
  "erase_self self now st =
     (let c = coreId (threads st self);
          q = queue (cores st ! c);
          it = find_iter q self
      in if it \<noteq> length q then
           (let q' = erase_at it q;
                sa = set_queue c q' st
            in if it = 0 then
                 (let sb =
                    (if timesliceStart (threads sa self) \<noteq> 0 then
                       upd_thread self (\<lambda>k. k\<lparr>averageTimeslice :=
                         timeslice_average (averageTimeslice k) now (timesliceStart k)\<rparr>) sa
                     else sa)
                  in if it \<noteq> length q' then emit (notify_one (q' ! it)) sb else sb)
               else sa)
         else st)"

text \<open>The rest of the function: disarm the timer of a preempted thread, clear
  \<open>isPreempted\<close> and \<open>YieldPending\<close>.\<close>

definition clear_preemption :: "tid \<Rightarrow> Scheduler \<Rightarrow> Scheduler" where
  "clear_preemption self st1 =
     (let st2 =
        (if isPreempted (threads st1 self) then
           upd_thread self (\<lambda>k. k\<lparr>isPreempted := False\<rparr>) (emit (timer_disarm self) st1)
         else st1)
      in st2\<lparr>YieldPending := (YieldPending st2)(self := False)\<rparr>)"

definition RemoveThread :: "tid \<Rightarrow> u64 \<Rightarrow> Scheduler \<Rightarrow> Scheduler result" where
  "RemoveThread self now st =
     (if \<not> coreId (threads st self) < length (cores st) then Inl (OutOfRange, st)
      else Inr (clear_preemption self (erase_self self now st)))"

section \<open>Rotate\<close>

text \<open>\<open>std::equal_range\<close> is the pair of \<open>lower_bound\<close> and \<open>upper_bound\<close>; the thread is
  looked for between the two positions.\<close>

definition in_band :: "Scheduler \<Rightarrow> tid list \<Rightarrow> tid \<Rightarrow> bool" where
  "in_band st q thread =
     (let lo = lower_bound st q (prio st thread);
          hi = upper_bound st q (prio st thread)
      in thread \<in> set (take (hi - lo) (drop lo q)))"

text \<open>Both paths end alike: a cooperative yield of a preempted thread disarms its timer,
  and \<open>isPreempted\<close> is cleared.\<close>

definition account_yield :: "tid \<Rightarrow> bool \<Rightarrow> Scheduler \<Rightarrow> Scheduler" where
  "account_yield self cooperative st =
     (let s1 = (if cooperative \<and> isPreempted (threads st self)
                then emit (timer_disarm self) st else st)
      in upd_thread self (\<lambda>k. k\<lparr>isPreempted := False\<rparr>) s1)"

definition Rotate :: "tid \<Rightarrow> bool \<Rightarrow> u64 \<Rightarrow> Scheduler \<Rightarrow> Scheduler result" where
  "Rotate self cooperative now st =
     (let c = coreId (threads st self) in
      if \<not> c < length (cores st) then Inl (OutOfRange, st)
      else
        let q = queue (cores st ! c) in
        if q = [] then Inl (EmptyFront, st)
        else if hd q = self then
          (let s1 = upd_thread self (\<lambda>k. k\<lparr>averageTimeslice :=
                      timeslice_average (averageTimeslice k) now (timesliceStart k)\<rparr>) st;
               q' = splice_front (upper_bound s1 q (prio s1 self)) q;
               s2 = set_queue c q' s1;
               front = hd q';
               s3 = (if front \<noteq> self then emit (notify_one front) s2 else s2);
               s4 = account_yield self cooperative s3
           in Inr (upd_thread self (\<lambda>k. k\<lparr>forceYield := False\<rparr>) s4))
        else if forceYield (threads st self) then
          (if in_band st q self then
             (let s1 = upd_thread self (\<lambda>k. k\<lparr>averageTimeslice :=
                         timeslice_average (averageTimeslice k) now (timesliceStart k)\<rparr>) st;
                  s2 = account_yield self cooperative s1
              in Inr (upd_thread self (\<lambda>k. k\<lparr>forceYield := False\<rparr>) s2))
           else Inl (InvalidSchedulerState, st))
        else Inl (InvalidSchedulerState, st))"

section \<open>UpdatePriority\<close>

text \<open>After the erase: a preempted thread that has left the core's preemption priority
  has its timer disarmed.\<close>

definition disarm_moved :: "tid \<Rightarrow> CoreContext \<Rightarrow> Scheduler \<Rightarrow> Scheduler" where
  "disarm_moved thread core s1 =
     (if isPreempted (threads s1 thread) \<and> prio s1 thread \<noteq> preemptionPriority core
      then upd_thread thread (\<lambda>k. k\<lparr>isPreempted := False\<rparr>) (emit (timer_disarm thread) s1)
      else s1)"

text \<open>The insertion that ends the function, into the queue \<open>q1\<close> of core \<open>c\<close> the thread
  was erased from: behind the front, which is signalled, when the thread would replace
  the front of a queue that is not empty; at its upper bound otherwise.\<close>

definition reinsert :: "tid \<Rightarrow> nat \<Rightarrow> tid list \<Rightarrow> Scheduler \<Rightarrow> Scheduler" where
  "reinsert thread c q1 s2 =
     (let targetIt = upper_bound s2 q1 (prio s2 thread)
      in if targetIt = 0 \<and> targetIt \<noteq> length q1
         then (let s3 = set_queue c (insert_at 1 thread q1) s2
               in emit (SendSignal (hd (queue (cores s3 ! c)))) s3)
         else set_queue c (insert_at targetIt thread q1) s2)"

text \<open>The thread's \<open>priority\<close> field already holds the new priority when the call is made.
  The branches are those of the source, in its order.\<close>

definition UpdatePriority :: "tid \<Rightarrow> Scheduler \<Rightarrow> Scheduler result" where
  "UpdatePriority thread st =
     (let c = coreId (threads st thread) in
      if \<not> c < length (cores st) then Inl (OutOfRange, st)
      else
        let core = cores st ! c;
            q = queue core;
            currentIt = find_iter q thread
        in if currentIt = length q \<or> currentIt = 0 then Inr st
           else if currentIt = 0 then
             (let nextIt = Suc currentIt in
              if nextIt \<noteq> length q \<and> prio st (q ! nextIt) < prio st thread
              then Inr (emit (SendSignal thread) st)
              else if \<not> isPreempted (threads st thread)
                      \<and> prio st thread = preemptionPriority core
              then Inr (upd_thread thread (\<lambda>k. k\<lparr>isPreempted := True\<rparr>)
                          (emit (timer_arm thread) st))
              else Inr st)
           else
             (let targetIt = upper_bound st q (prio st thread) in
              if currentIt = targetIt then Inr st
              else
                let q1 = erase_at currentIt q;
                    s1 = set_queue c q1 st;
                    s2 = disarm_moved thread core s1
                in Inr (reinsert thread c q1 s2)))"

section \<open>WakeParkedThread\<close>

text \<open>\<open>nextThread\<close> is a null handle when the caller's queue has no second element; the
  next line reads \<open>nextThread->priority\<close> whatever it is.\<close>

definition WakeParkedThread :: "tid \<Rightarrow> Scheduler \<Rightarrow> Scheduler result" where
  "WakeParkedThread self st =
     (if parkedQueue st \<noteq> [] then
        (let c = coreId (threads st self) in
         if \<not> c < length (cores st) then Inl (OutOfRange, st)
         else
           let q = queue (cores st ! c);
               nextThread0 = (if length q > 1 then Some (q ! 1) else None)
           in case nextThread0 of
                None \<Rightarrow> Inl (NullDereference, st)
              | Some n \<Rightarrow>
                  let nextThread = (if prio st n = prio st self then Some n else None);
                      parkedThread = hd (parkedQueue st)
                  in if prio st parkedThread < prio st self
                        \<or> (prio st parkedThread = prio st self
                            \<and> (case nextThread of
                                  None \<Rightarrow> True
                                | Some m \<Rightarrow> timesliceStart (threads st parkedThread)
                                              < timesliceStart (threads st m)))
                     then Inr (emit (notify_one self)
                            (upd_thread parkedThread
                               (\<lambda>k. k\<lparr>coreId := coreId (threads st self)\<rparr>) st))
                     else Inr st)
      else Inr st)"

section \<open>Waiting on the wake condition\<close>

text \<open>
  While a thread waits on its condition variable the core mutex is released and the
  other threads run. \<open>others\<close> lists what they do to the scheduler between one
  evaluation of the predicate and the next. \<open>wait_for\<close> is the bounded wait: when the
  list is used up the timeout has passed and the predicate's value then is returned.
  \<open>wait_cond\<close> is the unbounded wait: a thread still waiting when nothing more happens
  never returns (\<open>None\<close>).
\<close>

fun wait_for :: "(Scheduler \<Rightarrow> bool) \<Rightarrow> (Scheduler \<Rightarrow> Scheduler) list \<Rightarrow> Scheduler
    \<Rightarrow> bool \<times> Scheduler" where
  "wait_for pred [] st = (pred st, st)"
| "wait_for pred (other # others) st =
     (if pred st then (True, st) else wait_for pred others (other st))"

fun wait_cond :: "(Scheduler \<Rightarrow> bool) \<Rightarrow> (Scheduler \<Rightarrow> Scheduler) list \<Rightarrow> Scheduler
    \<Rightarrow> Scheduler option" where
  "wait_cond pred [] st = (if pred st then Some st else None)"
| "wait_cond pred (other # others) st =
     (if pred st then Some st else wait_cond pred others (other st))"

definition at_front :: "nat \<Rightarrow> tid \<Rightarrow> Scheduler \<Rightarrow> bool" where
  "at_front c thread s = (queue (cores s ! c) \<noteq> [] \<and> hd (queue (cores s ! c)) = thread)"

definition TimedWaitSchedule :: "tid \<Rightarrow> u64 \<Rightarrow> (Scheduler \<Rightarrow> Scheduler) list \<Rightarrow> Scheduler
    \<Rightarrow> (Scheduler \<times> bool) result" where
  "TimedWaitSchedule self now others st =
     (let c = coreId (threads st self) in
      if \<not> c < length (cores st) then Inl (OutOfRange, st)
      else
        case wait_for (at_front c self) others st of
          (True, s1) \<Rightarrow>
            (let s2 = (if prio s1 self = preemptionPriority (cores s1 ! c)
                       then upd_thread self (\<lambda>k. k\<lparr>isPreempted := True\<rparr>)
                              (emit (timer_arm self) s1)
                       else s1)
             in Inr (upd_thread self (\<lambda>k. k\<lparr>timesliceStart := now\<rparr>) s2, True))
        | (False, s1) \<Rightarrow> Inr (s1, False))"

section \<open>LoadBalance\<close>

text \<open>The projected wait on a candidate core: the running thread's share, then every
  resident thread that would run before \<open>thread\<close>. \<open>now\<close> is the value
  \<open>util::GetTimeTicks()\<close> returns while that core is examined.\<close>

definition running_share :: "u64 \<Rightarrow> KThread \<Rightarrow> u64" where
  "running_share now runningThread =
     (if averageTimeslice runningThread \<noteq> 0
      then min (averageTimeslice runningThread - (now - timesliceStart runningThread)) 1
      else if timesliceStart runningThread \<noteq> 0 then now - timesliceStart runningThread
      else 1)"

definition resident_share :: "Scheduler \<Rightarrow> tid \<Rightarrow> u64 \<Rightarrow> tid \<Rightarrow> u64" where
  "resident_share st thread timeslice residentThread =
     (if prio st residentThread \<le> prio st thread
      then timeslice + (if averageTimeslice (threads st residentThread) \<noteq> 0
                        then averageTimeslice (threads st residentThread) else 1)
      else timeslice)"

definition projected_wait :: "Scheduler \<Rightarrow> tid \<Rightarrow> u64 \<Rightarrow> CoreContext \<Rightarrow> u64" where
  "projected_wait st thread now candidateCore =
     (case queue candidateCore of
        [] \<Rightarrow> 0
      | runningThread # residents \<Rightarrow>
          foldl (resident_share st thread) (0 + running_share now (threads st runningThread))
            residents)"

text \<open>The loop over the cores; \<open>consider_core\<close> is its body. A \<open>CoreContext *\<close> is the
  core's position in \<open>cores\<close>; \<open>optimal\<close> is \<open>None\<close> while \<open>optimalCore\<close> is null, and
  carries \<open>minTimeslice\<close> with it (a \<open>size_t\<close>, of 64 bits like the \<open>u64\<close> it is compared
  with). \<open>nowAt i\<close> is the tick read while core \<open>i\<close> is examined.\<close>

definition consider_core :: "Scheduler \<Rightarrow> tid \<Rightarrow> (nat \<Rightarrow> u64) \<Rightarrow> nat \<Rightarrow> nat
    \<Rightarrow> (nat \<times> u64) option \<Rightarrow> (nat \<times> u64) option" where
  "consider_core st thread nowAt currentCore i optimal =
     (let candidateCore = cores st ! i in
      if test (affinityMask (threads st thread)) (id_core candidateCore) then
        (let timeslice = projected_wait st thread (nowAt i) candidateCore in
         case optimal of
           None \<Rightarrow> Some (i, timeslice)
         | Some (optimalCore, minTimeslice) \<Rightarrow>
             if timeslice < minTimeslice \<or> (timeslice = minTimeslice \<and> i = currentCore)
             then Some (i, timeslice) else optimal)
      else optimal)"

fun select_core :: "Scheduler \<Rightarrow> tid \<Rightarrow> (nat \<Rightarrow> u64) \<Rightarrow> nat \<Rightarrow> nat list
    \<Rightarrow> (nat \<times> u64) option \<Rightarrow> (nat \<times> u64) option" where
  "select_core st thread nowAt currentCore [] optimal = optimal"
| "select_core st thread nowAt currentCore (i # rest) optimal =
     select_core st thread nowAt currentCore rest
       (consider_core st thread nowAt currentCore i optimal)"

definition insert_if :: "bool \<Rightarrow> tid \<Rightarrow> tid \<Rightarrow> Scheduler \<Rightarrow> Scheduler result" where
  "insert_if alwaysInsert self thread st =
     (if alwaysInsert then InsertThread self thread st else Inr st)"

text \<open>The branch that moves the thread to another core. First the thread leaves its
  core: the caller removes itself, and another thread may only be moved when
  \<open>alwaysInsert\<close> says it is in no queue.\<close>

definition leave_core :: "bool \<Rightarrow> tid \<Rightarrow> tid \<Rightarrow> u64 \<Rightarrow> Scheduler \<Rightarrow> Scheduler result" where
  "leave_core alwaysInsert self thread now st =
     (if \<not> alwaysInsert \<and> thread = self then RemoveThread self now st
      else if \<not> alwaysInsert \<and> thread \<noteq> self
           then Inl (ExternalMigrationRequiresInsert, st)
           else Inr st)"

definition migrate :: "tid \<Rightarrow> tid \<Rightarrow> bool \<Rightarrow> u64 \<Rightarrow> nat \<Rightarrow> (nat \<times> u64) option \<Rightarrow> Scheduler
    \<Rightarrow> (Scheduler \<times> nat) result" where
  "migrate self thread alwaysInsert now currentCore optimal st =
     (case leave_core alwaysInsert self thread now st of
        Inl e \<Rightarrow> Inl e
      | Inr s1 \<Rightarrow>
          (case optimal of
             None \<Rightarrow> Inl (NullDereference, s1)
           | Some (optimalCore, minTimeslice) \<Rightarrow>
               (let s2 = upd_thread thread
                           (\<lambda>k. k\<lparr>coreId := id_core (cores s1 ! optimalCore)\<rparr>) s1
                in case InsertThread self thread s2 of
                     Inl e \<Rightarrow> Inl e
                   | Inr s3 \<Rightarrow>
                       Inr (emit (Debug_migrated thread
                                    (id_core (cores s3 ! currentCore))
                                    (id_core (cores s3 ! optimalCore))) s3,
                            optimalCore))))"

definition LoadBalance :: "tid \<Rightarrow> tid \<Rightarrow> bool \<Rightarrow> u64 \<Rightarrow> (nat \<Rightarrow> u64) \<Rightarrow> Scheduler
    \<Rightarrow> (Scheduler \<times> nat) result" where
  "LoadBalance self thread alwaysInsert now nowAt st =
     (let currentCore = coreId (threads st thread) in
      if \<not> currentCore < length (cores st) then Inl (OutOfRange, st)
      else if queue (cores st ! currentCore) \<noteq> []
              \<and> count (affinityMask (threads st thread)) \<noteq> 1 then
        (let optimal = select_core st thread nowAt currentCore [0 ..< length (cores st)] None in
         if map_option fst optimal \<noteq> Some currentCore then
           migrate self thread alwaysInsert now currentCore optimal st
         else
           (case insert_if alwaysInsert self thread st of
              Inl e \<Rightarrow> Inl e
            | Inr s1 \<Rightarrow>
                Inr (emit (Debug_late thread (id_core (cores s1 ! currentCore))) s1,
                     currentCore)))
      else
        (case insert_if alwaysInsert self thread st of
           Inl e \<Rightarrow> Inl e
         | Inr s1 \<Rightarrow>
             Inr (emit (Debug_early thread (id_core (cores s1 ! currentCore))) s1,
                  currentCore)))"

section \<open>ParkThread\<close>

text \<open>\<open>constant::ParkedCoreId\<close> is declared outside the sources and is a parameter here.
  The loop over the cores has no \<open>break\<close>: every core that qualifies overwrites
  \<open>coreId\<close>. A thread left waiting in the parked queue for good does not return
  (\<open>Inr None\<close>).\<close>

definition park_scan :: "tid \<Rightarrow> nat \<Rightarrow> Scheduler \<Rightarrow> CoreContext \<Rightarrow> Scheduler" where
  "park_scan self originalCoreId s core =
     (if originalCoreId \<noteq> id_core core
         \<and> test (affinityMask (threads s self)) (id_core core)
         \<and> (queue core = [] \<or> prio s (hd (queue core)) > prio s self)
      then upd_thread self (\<lambda>k. k\<lparr>coreId := id_core core\<rparr>) s
      else s)"

definition parked_ready :: "tid \<Rightarrow> nat \<Rightarrow> Scheduler \<Rightarrow> bool" where
  "parked_ready self ParkedCoreId s =
     (parkedQueue s \<noteq> [] \<and> hd (parkedQueue s) = self
      \<and> coreId (threads s self) \<noteq> ParkedCoreId)"

text \<open>The choice of the new core, after the caller has removed itself.\<close>

definition park_target :: "tid \<Rightarrow> nat \<Rightarrow> Scheduler \<Rightarrow> Scheduler" where
  "park_target self ParkedCoreId s1 =
     (let originalCoreId = coreId (threads s1 self);
          s2 = upd_thread self (\<lambda>k. k\<lparr>coreId := ParkedCoreId\<rparr>) s1
      in foldl (park_scan self originalCoreId) s2 (cores s2))"

definition park_enqueue :: "tid \<Rightarrow> Scheduler \<Rightarrow> Scheduler" where
  "park_enqueue self s3 =
     s3\<lparr>parkedQueue :=
          insert_at (upper_bound s3 (parkedQueue s3) (prio s3 self)) self (parkedQueue s3)\<rparr>"

definition ParkThread :: "tid \<Rightarrow> nat \<Rightarrow> u64 \<Rightarrow> (Scheduler \<Rightarrow> Scheduler) list \<Rightarrow> Scheduler
    \<Rightarrow> Scheduler option result" where
  "ParkThread self ParkedCoreId now others st =
     (case RemoveThread self now st of
        Inl e \<Rightarrow> Inl e
      | Inr s1 \<Rightarrow>
          let s3 = park_target self ParkedCoreId s1
          in if coreId (threads s3 self) = ParkedCoreId then
               (case wait_cond (parked_ready self ParkedCoreId) others (park_enqueue self s3) of
                  None \<Rightarrow> Inr None
                | Some s5 \<Rightarrow>
                    (case InsertThread self self s5 of
                       Inl e \<Rightarrow> Inl e
                     | Inr s6 \<Rightarrow> Inr (Some s6)))
             else
               (case InsertThread self self s3 of
                  Inl e \<Rightarrow> Inl e
                | Inr s6 \<Rightarrow> Inr (Some s6)))"

section \<open>Derived notions and sample states\<close>

text \<open>The position at which \<open>InsertThread\<close> puts the thread: the upper bound of its
  priority, except behind the front when another thread's insertion would replace the
  front of a queue that is not empty.\<close>

definition insert_pos :: "tid \<Rightarrow> tid \<Rightarrow> Scheduler \<Rightarrow> nat" where
  "insert_pos self thread st =
     (let q = queue (cores st ! coreId (threads st thread));
          n = upper_bound st q (prio st thread)
      in if n = 0 \<and> q \<noteq> [] \<and> self \<noteq> thread then 1 else n)"

text \<open>A scheduler of four cores, as in the scenarios of the specification, and threads
  that admit every core.\<close>

definition thread_at :: "int \<Rightarrow> nat \<Rightarrow> KThread" where
  "thread_at p c = \<lparr>priority = p, affinityMask = [True, True, True, True], coreId = c,
     averageTimeslice = 0, timesliceStart = 0, isPreempted = False, forceYield = False\<rparr>"

definition four_cores :: "tid list \<Rightarrow> tid list \<Rightarrow> tid list \<Rightarrow> tid list \<Rightarrow> CoreContext list" where
  "four_cores q0 q1 q2 q3 =
     [\<lparr>id_core = 0, preemptionPriority = 59, queue = q0\<rparr>,
      \<lparr>id_core = 1, preemptionPriority = 59, queue = q1\<rparr>,
      \<lparr>id_core = 2, preemptionPriority = 59, queue = q2\<rparr>,
      \<lparr>id_core = 3, preemptionPriority = 63, queue = q3\<rparr>]"

definition sched :: "CoreContext list \<Rightarrow> tid list \<Rightarrow> (tid \<Rightarrow> KThread) \<Rightarrow> Scheduler" where
  "sched cs parked ths = \<lparr>cores = cs, parkedQueue = parked, threads = ths,
     YieldPending = (\<lambda>t. False), trace = []\<rparr>"

text \<open>Thread 1 (priority 40) alone on core 0; thread 2 (priority 30) not yet scheduled
  and preempted.\<close>

definition one_running :: Scheduler where
  "one_running = sched (four_cores [1] [] [] []) []
     ((\<lambda>t. thread_at 40 0)(2 := (thread_at 30 0)\<lparr>isPreempted := True\<rparr>))"

text \<open>Thread 1 runs on core 0 since tick 4 with an average of 0.\<close>

definition yielding :: Scheduler where
  "yielding = sched (four_cores [1] [] [] []) [] (\<lambda>t. (thread_at 40 0)\<lparr>timesliceStart := 4\<rparr>)"

text \<open>Thread 1 is the front of core 0 and has just been given priority 50; thread 2
  behind it has priority 30.\<close>

definition head_lowered :: Scheduler where
  "head_lowered = sched (four_cores [1, 2] [] [] []) []
     ((\<lambda>t. thread_at 50 0)(2 := thread_at 30 0))"

text \<open>Thread 1 is alone on core 0; thread 3, of higher priority, is parked.\<close>

definition parked_waiting :: Scheduler where
  "parked_waiting = sched (four_cores [1] [] [] []) [3]
     ((\<lambda>t. thread_at 50 0)(3 := thread_at 30 4))"

text \<open>Thread 2 carries \<open>forceYield\<close> but is in no queue.\<close>

definition forced_absent :: Scheduler where
  "forced_absent = sched (four_cores [1] [] [] []) []
     ((\<lambda>t. thread_at 40 0)(2 := (thread_at 40 0)\<lparr>forceYield := True\<rparr>))"

text \<open>Thread 1 (priority 50, admitted on cores 0 and 1) waits on core 0 behind thread 2;
  core 1 holds threads 3 and 4.\<close>

definition balanced :: Scheduler where
  "balanced = sched (four_cores [2, 1] [3, 4] [] []) []
     ((\<lambda>t. thread_at 40 1)(1 := (thread_at 50 0)\<lparr>affinityMask := [True, True, False, False]\<rparr>,
        2 := thread_at 40 0))"

text \<open>The notions of the load balancer's claim: a core admitted by the thread's affinity
  mask, the projected wait the loop computes for a core, and a core that attains the
  least projected wait among the admitted ones. \<open>best_of\<close> is the loop's invariant over
  the cores \<open>S\<close> examined so far.\<close>

definition admitted :: "Scheduler \<Rightarrow> tid \<Rightarrow> nat \<Rightarrow> bool" where
  "admitted st thread i =
     (i < length (cores st) \<and> test (affinityMask (threads st thread)) (id_core (cores st ! i)))"

definition projection :: "Scheduler \<Rightarrow> tid \<Rightarrow> (nat \<Rightarrow> u64) \<Rightarrow> nat \<Rightarrow> u64" where
  "projection st thread nowAt i = projected_wait st thread (nowAt i) (cores st ! i)"

definition minimal_at :: "Scheduler \<Rightarrow> tid \<Rightarrow> (nat \<Rightarrow> u64) \<Rightarrow> nat \<Rightarrow> bool" where
  "minimal_at st thread nowAt c =
     (admitted st thread c
      \<and> (\<forall>i < length (cores st). admitted st thread i
             \<longrightarrow> projection st thread nowAt c \<le> projection st thread nowAt i))"

definition best_of :: "(nat \<Rightarrow> bool) \<Rightarrow> (nat \<Rightarrow> u64) \<Rightarrow> nat \<Rightarrow> nat set
    \<Rightarrow> (nat \<times> u64) option \<Rightarrow> bool" where
  "best_of adm pw currentCore S optimal =
     (case optimal of
        None \<Rightarrow> (\<forall>i\<in>S. \<not> adm i)
      | Some (opt, m) \<Rightarrow>
          opt \<in> S \<and> adm opt \<and> m = pw opt
          \<and> (\<forall>i\<in>S. adm i \<longrightarrow> m \<le> pw i)
          \<and> (currentCore \<in> S \<and> adm currentCore \<and> pw currentCore = m
              \<longrightarrow> opt = currentCore))"

text \<open>The cores \<open>ParkThread\<close> may move the caller to: a core other than the caller's own,
  admitted by its affinity mask, whose queue is empty or whose front has strictly lower
  priority than the caller. \<open>park_cond\<close> is the test of the loop as the source writes
  it, on a core context.\<close>

definition park_admits :: "Scheduler \<Rightarrow> tid \<Rightarrow> nat \<Rightarrow> bool" where
  "park_admits st self i =
     (i < length (cores st) \<and> i \<noteq> coreId (threads st self)
      \<and> test (affinityMask (threads st self)) i
      \<and> (queue (cores st ! i) = [] \<or> prio st self < prio st (hd (queue (cores st ! i)))))"

definition park_cond :: "Scheduler \<Rightarrow> tid \<Rightarrow> nat \<Rightarrow> CoreContext \<Rightarrow> bool" where
  "park_cond s self originalCoreId core =
     (originalCoreId \<noteq> id_core core
         \<and> test (affinityMask (threads s self)) (id_core core)
         \<and> (queue core = [] \<or> prio s (hd (queue core)) > prio s self))"

text \<open>Thread 6 (priority 50) runs alone on core 0, cores 1 and 2 are empty and core 3
  runs thread 5 of priority 30; and the same scheduler after thread 6 has moved to
  core 2.\<close>

definition park_two :: Scheduler where
  "park_two = sched (four_cores [6] [] [] [5]) [] ((\<lambda>t. thread_at 50 0)(5 := thread_at 30 3))"

definition park_two_moved :: Scheduler where
  "park_two_moved = sched (four_cores [] [] [6] [5]) []
     ((\<lambda>t. thread_at 50 0)(5 := thread_at 30 3, 6 := thread_at 50 2))"

text \<open>The order of the ready queues. A queue is sorted when the priorities of its
  threads ascend, not strictly. \<open>placed st t q\<close> is \<open>q\<close> with \<open>t\<close> put behind every thread
  of \<open>q\<close> that precedes the first thread of strictly lower priority than \<open>t\<close>, the order
  of the others kept: in a sorted queue, behind its whole priority band.
  \<open>behind_front t q\<close> is \<open>q\<close> with \<open>t\<close> put directly behind the front. A thread
  \<open>dethrones\<close> the front when another thread inserts it with strictly higher priority
  than the front of a queue that is not empty. \<open>sorted_but_front st c\<close>: every queue but
  that of core \<open>c\<close> is sorted, and that of core \<open>c\<close> is sorted from its second thread
  on.\<close>

definition queue_sorted :: "Scheduler \<Rightarrow> nat \<Rightarrow> bool" where
  "queue_sorted st c = sorted (map (prio st) (queue (cores st ! c)))"

definition all_sorted :: "Scheduler \<Rightarrow> bool" where
  "all_sorted st = (\<forall>c < length (cores st). queue_sorted st c)"

definition placed :: "Scheduler \<Rightarrow> tid \<Rightarrow> tid list \<Rightarrow> tid list" where
  "placed st t q =
     takeWhile (\<lambda>u. prio st u \<le> prio st t) q @ t # dropWhile (\<lambda>u. prio st u \<le> prio st t) q"

definition behind_front :: "tid \<Rightarrow> tid list \<Rightarrow> tid list" where
  "behind_front t q = hd q # t # tl q"

definition dethrones :: "tid \<Rightarrow> tid \<Rightarrow> Scheduler \<Rightarrow> bool" where
  "dethrones self thread st =
     (self \<noteq> thread \<and> queue (cores st ! coreId (threads st thread)) \<noteq> []
      \<and> prio st thread < prio st (hd (queue (cores st ! coreId (threads st thread)))))"

definition sorted_but_front :: "Scheduler \<Rightarrow> nat \<Rightarrow> bool" where
  "sorted_but_front st c =
     ((\<forall>d < length (cores st). d \<noteq> c \<longrightarrow> queue_sorted st d)
      \<and> sorted (map (prio st) (tl (queue (cores st ! c)))))"

text \<open>\<open>outranks st self t q\<close>: thread \<open>t\<close>, inserted by another thread \<open>self\<close>, has strictly
  higher priority than the front of the queue \<open>q\<close>, which is not empty (as \<open>dethrones\<close>,
  for any queue). \<open>vacated t st\<close>: the cores with \<open>t\<close> erased from the queue of its core.
  \<open>lb_before alwaysInsert t st\<close>: the cores on which \<open>LoadBalance\<close> inserts the thread: as
  they are when \<open>alwaysInsert\<close> says that the thread is in no queue, and with the thread
  erased from its queue otherwise.\<close>

definition outranks :: "Scheduler \<Rightarrow> tid \<Rightarrow> tid \<Rightarrow> tid list \<Rightarrow> bool" where
  "outranks st self t q = (self \<noteq> t \<and> q \<noteq> [] \<and> prio st t < prio st (hd q))"

definition vacated :: "tid \<Rightarrow> Scheduler \<Rightarrow> CoreContext list" where
  "vacated t st = (cores st)[coreId (threads st t) := (cores st ! coreId (threads st t))
     \<lparr>queue := remove1 t (queue (cores st ! coreId (threads st t)))\<rparr>]"

definition lb_before :: "bool \<Rightarrow> tid \<Rightarrow> Scheduler \<Rightarrow> CoreContext list" where
  "lb_before alwaysInsert t st = (if alwaysInsert then cores st else vacated t st)"

text \<open>Threads 5, 6 and 7 of priority 40 queued on core 0 in this order; the same with
  thread 7 just raised to priority 30; and \<open>one_running\<close> after another thread has
  inserted thread 2.\<close>

definition fifo_band :: Scheduler where
  "fifo_band = sched (four_cores [5, 6, 7] [] [] []) [] (\<lambda>t. thread_at 40 0)"

definition raised :: Scheduler where
  "raised = sched (four_cores [5, 6, 7] [] [] []) [] ((\<lambda>t. thread_at 40 0)(7 := thread_at 30 0))"

definition deferred :: Scheduler where
  "deferred = one_running\<lparr>cores := four_cores [1, 2] [] [] [],
                           trace := [SendSignal 1, notify_one 2]\<rparr>"

text \<open>The queue of \<open>fifo_band\<close>, with thread 8 (priority 60) and thread 9 (priority 30)
  in no queue and confined to core 0 by their affinity masks.\<close>

definition pinned :: Scheduler where
  "pinned = sched (four_cores [5, 6, 7] [] [] []) []
     ((\<lambda>t. thread_at 40 0)
        (8 := (thread_at 60 0)\<lparr>affinityMask := [True, False, False, False]\<rparr>,
         9 := (thread_at 30 0)\<lparr>affinityMask := [True, False, False, False]\<rparr>))"

section \<open>Auxiliary lemmas\<close>

lemmas sample_defs = one_running_def yielding_def head_lowered_def parked_waiting_def
  forced_absent_def balanced_def park_two_def park_two_moved_def fifo_band_def raised_def
  deferred_def pinned_def sched_def four_cores_def thread_at_def

lemmas search_defs = upper_bound_def lower_bound_def IsHigherPriority_def prio_def
  bound_search.simps

lemma emit_simps [simp]:
  "cores (emit e st) = cores st" "parkedQueue (emit e st) = parkedQueue st"
  "threads (emit e st) = threads st" "YieldPending (emit e st) = YieldPending st"
  "trace (emit e st) = trace st @ [e]"
  by (simp_all add: emit_def)

lemma upd_thread_simps [simp]:
  "cores (upd_thread t f st) = cores st" "parkedQueue (upd_thread t f st) = parkedQueue st"
  "threads (upd_thread t f st) = (threads st)(t := f (threads st t))"
  "YieldPending (upd_thread t f st) = YieldPending st"
  "trace (upd_thread t f st) = trace st"
  by (simp_all add: upd_thread_def)

lemma set_queue_simps [simp]:
  "cores (set_queue c q st) = (cores st)[c := (cores st ! c)\<lparr>queue := q\<rparr>]"
  "parkedQueue (set_queue c q st) = parkedQueue st"
  "threads (set_queue c q st) = threads st"
  "YieldPending (set_queue c q st) = YieldPending st"
  "trace (set_queue c q st) = trace st"
  by (simp_all add: set_queue_def)

lemma prio_simps [simp]:
  "prio (emit e st) = prio st" "prio (set_queue c q st) = prio st"
  "prio (st\<lparr>YieldPending := y\<rparr>) = prio st"
  "prio (st\<lparr>parkedQueue := pq\<rparr>) = prio st"
  by (simp_all add: prio_def fun_eq_iff)

lemma prio_upd_thread:
  "priority (f (threads st t)) = priority (threads st t) \<Longrightarrow> prio (upd_thread t f st) = prio st"
  by (auto simp: prio_def fun_eq_iff)

lemma upper_bound_cong: "prio st' = prio st \<Longrightarrow> upper_bound st' q p = upper_bound st q p"
  by (simp add: upper_bound_def IsHigherPriority_def)

subsection \<open>The binary search\<close>

text \<open>Whatever the list, the position found is within the range searched, the element
  before it (if probed) sent the search right and the element at it sent the search
  left.\<close>

lemma bound_search_inv:
  "first \<le> bound_search g xs first cnt \<and> bound_search g xs first cnt \<le> first + cnt
   \<and> (bound_search g xs first cnt \<noteq> first \<longrightarrow> g (xs ! (bound_search g xs first cnt - 1)))
   \<and> (bound_search g xs first cnt \<noteq> first + cnt \<longrightarrow> \<not> g (xs ! bound_search g xs first cnt))"
proof (induction g xs first cnt rule: bound_search.induct)
  case (1 g xs first cnt)
  show ?case
  proof (cases "cnt = 0")
    case True
    then show ?thesis by (simp add: bound_search.simps)
  next
    case False
    define step where "step = cnt div 2"
    have step: "step < cnt" using False by (simp add: step_def)
    show ?thesis
    proof (cases "g (xs ! (first + step))")
      case True
      define r where "r = bound_search g xs (first + step + 1) (cnt - (step + 1))"
      have eq: "bound_search g xs first cnt = r"
        using False True by (subst bound_search.simps) (simp add: r_def step_def)
      from False True 1(1) have ih:
        "first + step + 1 \<le> r \<and> r \<le> first + step + 1 + (cnt - (step + 1))
         \<and> (r \<noteq> first + step + 1 \<longrightarrow> g (xs ! (r - 1)))
         \<and> (r \<noteq> first + step + 1 + (cnt - (step + 1)) \<longrightarrow> \<not> g (xs ! r))"
        by (simp add: r_def step_def)
      have "g (xs ! (r - 1))"
      proof (cases "r = first + step + 1")
        case True
        with \<open>g (xs ! (first + step))\<close> show ?thesis by simp
      next
        case False
        with ih show ?thesis by blast
      qed
      moreover have "first + step + 1 + (cnt - (step + 1)) = first + cnt" using step by simp
      ultimately show ?thesis using ih unfolding eq by auto
    next
      case g: False
      define r where "r = bound_search g xs first step"
      have eq: "bound_search g xs first cnt = r"
        using False g by (subst bound_search.simps) (simp add: r_def step_def)
      from False g 1(2) have ih:
        "first \<le> r \<and> r \<le> first + step \<and> (r \<noteq> first \<longrightarrow> g (xs ! (r - 1)))
         \<and> (r \<noteq> first + step \<longrightarrow> \<not> g (xs ! r))"
        by (simp add: r_def step_def)
      have "\<not> g (xs ! r)"
      proof (cases "r = first + step")
        case True
        with g show ?thesis by simp
      next
        case False
        with ih show ?thesis by blast
      qed
      then show ?thesis using ih step unfolding eq by auto
    qed
  qed
qed

lemma bound_search_bounds:
  "first \<le> bound_search g xs first cnt \<and> bound_search g xs first cnt \<le> first + cnt"
  using bound_search_inv [of first g xs cnt] by blast

lemma upper_bound_le: "upper_bound st q p \<le> length q"
  using bound_search_bounds [of 0 "\<lambda>it. \<not> IsHigherPriority st p it" q "length q"]
  by (simp add: upper_bound_def)

lemma find_iter_absent: "x \<notin> set xs \<Longrightarrow> find_iter xs x = length xs"
  by (induction xs) auto

lemma find_iter_le: "find_iter xs x \<le> length xs"
  by (induction xs) auto

lemma find_iter_present: "x \<in> set xs \<Longrightarrow> find_iter xs x < length xs \<and> xs ! find_iter xs x = x"
  by (induction xs) auto

lemma find_iter_insert_at:
  "x \<notin> set xs \<Longrightarrow> i \<le> length xs \<Longrightarrow> find_iter (insert_at i x xs) x = i"
proof (induction xs arbitrary: i)
  case Nil
  then show ?case by (simp add: insert_at_def)
next
  case (Cons y ys)
  show ?case
  proof (cases i)
    case 0
    then show ?thesis by (simp add: insert_at_def)
  next
    case (Suc j)
    with Cons.prems have "find_iter (insert_at j x ys) x = j"
      by (intro Cons.IH) auto
    with Suc Cons.prems show ?thesis by (auto simp: insert_at_def)
  qed
qed

lemma erase_insert_at: "i \<le> length xs \<Longrightarrow> erase_at i (insert_at i x xs) = xs"
  by (simp add: erase_at_def insert_at_def)

lemma length_insert_at [simp]: "length (insert_at i x xs) = Suc (length xs)"
  by (simp add: insert_at_def)

lemma insert_at_0 [simp]: "insert_at 0 x xs = x # xs"
  by (simp add: insert_at_def)

lemma core_queue_id: "c < length cs \<Longrightarrow> cs[c := (cs ! c)\<lparr>queue := queue (cs ! c)\<rparr>] = cs"
  by (simp add: list_update_same_conv)

subsection \<open>What InsertThread and RemoveThread do to the queues\<close>

lemma insert_pos_le:
  "insert_pos self thread st \<le> length (queue (cores st ! coreId (threads st thread)))"
  using upper_bound_le [of st "queue (cores st ! coreId (threads st thread))" "prio st thread"]
  by (auto simp: insert_pos_def Let_def Suc_le_eq)

lemma InsertThread_effect:
  assumes c: "coreId (threads st thread) < length (cores st)"
  shows "\<exists>st'. InsertThread self thread st = Inr st'
      \<and> cores st' = (cores st)[coreId (threads st thread) :=
            (cores st ! coreId (threads st thread))\<lparr>queue :=
               insert_at (insert_pos self thread st) thread
                 (queue (cores st ! coreId (threads st thread)))\<rparr>]
      \<and> parkedQueue st' = parkedQueue st
      \<and> prio st' = prio st
      \<and> (\<forall>u. coreId (threads st' u) = coreId (threads st u))"
proof -
  let ?c = "coreId (threads st thread)"
  let ?q = "queue (cores st ! ?c)"
  let ?sa = "upd_thread (hd ?q) (\<lambda>k. k\<lparr>forceYield := True\<rparr>) st"
  have pa: "prio ?sa = prio st" by (simp add: prio_upd_thread)
  have ub: "upper_bound ?sa ?q (prio st thread) = upper_bound st ?q (prio st thread)"
    by (rule upper_bound_cong [OF pa])
  show ?thesis
  proof (cases "upper_bound st ?q (prio st thread) = 0")
    case False
    then show ?thesis using c
      by (simp add: InsertThread_def Let_def insert_pos_def)
  next
    case True
    show ?thesis
    proof (cases "?q = []")
      case e: True
      then show ?thesis using c True
        by (simp add: InsertThread_def Let_def insert_pos_def)
    next
      case ne: False
      show ?thesis
      proof (cases "self = thread")
        case s: True
        then show ?thesis using c True ne pa ub
          by (simp add: InsertThread_def Let_def insert_pos_def splice_front_def prio_upd_thread)
      next
        case s: False
        then show ?thesis using c True ne
          by (simp add: InsertThread_def Let_def insert_pos_def)
      qed
    qed
  qed
qed

lemma remove1_insert_at: "x \<notin> set xs \<Longrightarrow> remove1 x (insert_at i x xs) = xs"
proof -
  assume "x \<notin> set xs"
  then have "x \<notin> set (take i xs)" by (metis in_set_takeD)
  then show ?thesis by (simp add: insert_at_def remove1_append)
qed

lemma isPreempted_clear_idem: "\<not> isPreempted k \<Longrightarrow> k\<lparr>isPreempted := False\<rparr> = k"
  by (cases k) simp

lemma erase_at_find_iter: "erase_at (find_iter xs x) xs = remove1 x xs"
  by (induction xs) (auto simp: erase_at_def)

lemma RemoveThread_stages:
  "coreId (threads st self) < length (cores st) \<Longrightarrow>
   RemoveThread self now st = Inr (clear_preemption self (erase_self self now st))"
  by (simp add: RemoveThread_def)

lemma erase_self_effect:
  "cores (erase_self self now st) = (cores st)[coreId (threads st self) :=
            (cores st ! coreId (threads st self))\<lparr>queue :=
               remove1 self (queue (cores st ! coreId (threads st self)))\<rparr>]
   \<and> parkedQueue (erase_self self now st) = parkedQueue st
   \<and> prio (erase_self self now st) = prio st
   \<and> (\<forall>u. coreId (threads (erase_self self now st) u) = coreId (threads st u))
   \<and> (\<forall>u. affinityMask (threads (erase_self self now st) u) = affinityMask (threads st u))"
proof (cases "self \<in> set (queue (cores st ! coreId (threads st self)))")
  case False
  then show ?thesis
    by (simp add: erase_self_def Let_def find_iter_absent remove1_idem list_update_same_conv)
next
  case True
  then have "find_iter (queue (cores st ! coreId (threads st self))) self
      \<noteq> length (queue (cores st ! coreId (threads st self)))"
    using find_iter_present [of self "queue (cores st ! coreId (threads st self))"] by simp
  then show ?thesis
    by (simp add: erase_self_def Let_def erase_at_find_iter prio_upd_thread)
qed

lemma clear_preemption_effect:
  "cores (clear_preemption self st) = cores st
   \<and> parkedQueue (clear_preemption self st) = parkedQueue st
   \<and> prio (clear_preemption self st) = prio st
   \<and> (\<forall>u. coreId (threads (clear_preemption self st) u) = coreId (threads st u))
   \<and> (\<forall>u. affinityMask (threads (clear_preemption self st) u) = affinityMask (threads st u))"
  by (simp add: clear_preemption_def Let_def prio_upd_thread)

lemma RemoveThread_effect:
  assumes c: "coreId (threads st self) < length (cores st)"
  shows "\<exists>st'. RemoveThread self now st = Inr st'
      \<and> cores st' = (cores st)[coreId (threads st self) :=
            (cores st ! coreId (threads st self))\<lparr>queue :=
               remove1 self (queue (cores st ! coreId (threads st self)))\<rparr>]
      \<and> parkedQueue st' = parkedQueue st
      \<and> prio st' = prio st
      \<and> (\<forall>u. coreId (threads st' u) = coreId (threads st u))
      \<and> (\<forall>u. affinityMask (threads st' u) = affinityMask (threads st u))"
  using RemoveThread_stages [OF c, of now] erase_self_effect [of self now st]
    clear_preemption_effect [of self "erase_self self now st"]
  by simp


subsection \<open>The bounded wait\<close>

lemma wait_for_False:
  "wait_for pred others st = (False, s1) \<Longrightarrow> s1 = foldl (\<lambda>s other. other s) st others"
  by (induction others arbitrary: st) (auto split: if_splits)

subsection \<open>The loop of LoadBalance keeps a minimum, and the current core on a tie\<close>

lemma best_of_SomeI:
  "\<lbrakk>opt \<in> S; adm opt; \<forall>i\<in>S. adm i \<longrightarrow> pw opt \<le> pw i;
    cur \<in> S \<and> adm cur \<and> pw cur = pw opt \<longrightarrow> opt = cur\<rbrakk>
   \<Longrightarrow> best_of adm pw cur S (Some (opt, pw opt))"
  by (simp add: best_of_def)

lemma best_of_SomeD:
  assumes "best_of adm pw cur S (Some (opt, m))"
  shows "opt \<in> S" "adm opt" "m = pw opt" "\<forall>i\<in>S. adm i \<longrightarrow> pw opt \<le> pw i"
    "cur \<in> S \<and> adm cur \<and> pw cur = pw opt \<longrightarrow> opt = cur"
proof -
  from assms have a: "opt \<in> S" and b: "adm opt" and c: "m = pw opt"
    and d: "\<forall>i\<in>S. adm i \<longrightarrow> m \<le> pw i"
    and e: "cur \<in> S \<and> adm cur \<and> pw cur = m \<longrightarrow> opt = cur"
    unfolding best_of_def option.case prod.case by blast+
  show "opt \<in> S" "adm opt" "m = pw opt" by fact+
  show "\<forall>i\<in>S. adm i \<longrightarrow> pw opt \<le> pw i" by (rule d [unfolded c])
  show "cur \<in> S \<and> adm cur \<and> pw cur = pw opt \<longrightarrow> opt = cur" by (rule e [unfolded c])
qed

lemma best_of_skip: "best_of adm pw cur S optimal \<Longrightarrow> \<not> adm i \<Longrightarrow> best_of adm pw cur (insert i S) optimal"
  by (cases optimal) (auto simp: best_of_def)

lemma best_of_first: "best_of adm pw cur S None \<Longrightarrow> adm i \<Longrightarrow> best_of adm pw cur (insert i S) (Some (i, pw i))"
  by (auto simp: best_of_def)

lemma best_of_better:
  assumes "best_of adm pw cur S (Some (opt, m))" and "adm i" and "pw i < m"
  shows "best_of adm pw cur (insert i S) (Some (i, pw i))"
proof (rule best_of_SomeI)
  note d = best_of_SomeD [OF assms(1)]
  show "i \<in> insert i S" by simp
  show "adm i" by fact
  show "\<forall>j\<in>insert i S. adm j \<longrightarrow> pw i \<le> pw j"
  proof (intro ballI impI)
    fix j assume "j \<in> insert i S" "adm j"
    show "pw i \<le> pw j"
    proof (cases "j = i")
      case True then show ?thesis by simp
    next
      case False
      with \<open>j \<in> insert i S\<close> \<open>adm j\<close> d(4) have "pw opt \<le> pw j" by simp
      with assms(3) d(3) show ?thesis by simp
    qed
  qed
  show "cur \<in> insert i S \<and> adm cur \<and> pw cur = pw i \<longrightarrow> i = cur"
  proof (intro impI, elim conjE)
    assume "cur \<in> insert i S" "adm cur" "pw cur = pw i"
    show "i = cur"
    proof (rule ccontr)
      assume "i \<noteq> cur"
      with \<open>cur \<in> insert i S\<close> have "cur \<in> S" by auto
      with d(4) \<open>adm cur\<close> have "pw opt \<le> pw cur" by simp
      with \<open>pw cur = pw i\<close> assms(3) d(3) show False by simp
    qed
  qed
qed

lemma best_of_tie:
  assumes "best_of adm pw cur S (Some (opt, m))" and "adm cur" and "pw cur = m"
  shows "best_of adm pw cur (insert cur S) (Some (cur, pw cur))"
proof (rule best_of_SomeI)
  note d = best_of_SomeD [OF assms(1)]
  show "cur \<in> insert cur S" by simp
  show "adm cur" by fact
  show "\<forall>j\<in>insert cur S. adm j \<longrightarrow> pw cur \<le> pw j"
    using d(4) d(3) assms(3) by simp
  show "cur \<in> insert cur S \<and> adm cur \<and> pw cur = pw cur \<longrightarrow> cur = cur" by simp
qed

lemma best_of_keep:
  assumes "best_of adm pw cur S (Some (opt, m))" and "adm i"
      and "\<not> pw i < m" and "pw i = m \<longrightarrow> i \<noteq> cur"
  shows "best_of adm pw cur (insert i S) (Some (opt, m))"
proof -
  note d = best_of_SomeD [OF assms(1)]
  have "best_of adm pw cur (insert i S) (Some (opt, pw opt))"
  proof (rule best_of_SomeI)
    show "opt \<in> insert i S" using d(1) by simp
    show "adm opt" by (rule d(2))
    show "\<forall>j\<in>insert i S. adm j \<longrightarrow> pw opt \<le> pw j"
      using d(4) d(3) assms(3) by (simp add: not_less)
    show "cur \<in> insert i S \<and> adm cur \<and> pw cur = pw opt \<longrightarrow> opt = cur"
      using d(5) d(3) assms(4) by auto
  qed
  with d(3) show ?thesis by simp
qed

lemma consider_core_best:
  assumes "best_of (\<lambda>i. test (affinityMask (threads st thread)) (id_core (cores st ! i)))
           (\<lambda>i. projected_wait st thread (nowAt i) (cores st ! i)) cur S optimal"
  shows "best_of (\<lambda>i. test (affinityMask (threads st thread)) (id_core (cores st ! i)))
           (\<lambda>i. projected_wait st thread (nowAt i) (cores st ! i)) cur (insert i S)
           (consider_core st thread nowAt cur i optimal)"
proof -
  let ?adm = "\<lambda>i. test (affinityMask (threads st thread)) (id_core (cores st ! i))"
  let ?pw = "\<lambda>i. projected_wait st thread (nowAt i) (cores st ! i)"
  show ?thesis
  proof (cases "?adm i")
    case False
    then have "consider_core st thread nowAt cur i optimal = optimal"
      by (simp add: consider_core_def)
    with best_of_skip [OF assms, of i] False show ?thesis by simp
  next
    case True
    show ?thesis
    proof (cases optimal)
      case None
      with True have "consider_core st thread nowAt cur i optimal = Some (i, ?pw i)"
        by (simp add: consider_core_def)
      with best_of_first [of ?adm ?pw cur S i] assms None True show ?thesis by simp
    next
      case (Some a)
      obtain opt m where a: "a = (opt, m)" by (cases a)
      have prem: "best_of ?adm ?pw cur S (Some (opt, m))" using assms Some a by simp
      consider (less) "?pw i < m" | (tie) "\<not> ?pw i < m" "?pw i = m" "i = cur"
        | (keep) "\<not> ?pw i < m" "?pw i = m \<longrightarrow> i \<noteq> cur" by blast
      then show ?thesis
      proof cases
        case less
        with True Some a have "consider_core st thread nowAt cur i optimal = Some (i, ?pw i)"
          by (simp add: consider_core_def)
        with best_of_better [OF prem _ less] True show ?thesis by simp
      next
        case tie
        with True Some a have "consider_core st thread nowAt cur i optimal = Some (i, ?pw i)"
          by (simp add: consider_core_def)
        with best_of_tie [OF prem] True tie show ?thesis by simp
      next
        case keep
        with True Some a have "consider_core st thread nowAt cur i optimal = Some (opt, m)"
          by (auto simp add: consider_core_def)
        with best_of_keep [OF prem _ keep] True show ?thesis by simp
      qed
    qed
  qed
qed

lemma select_core_best:
  "best_of (\<lambda>i. test (affinityMask (threads st thread)) (id_core (cores st ! i)))
           (\<lambda>i. projected_wait st thread (nowAt i) (cores st ! i)) cur S optimal \<Longrightarrow>
   best_of (\<lambda>i. test (affinityMask (threads st thread)) (id_core (cores st ! i)))
           (\<lambda>i. projected_wait st thread (nowAt i) (cores st ! i)) cur (S \<union> set cs)
     (select_core st thread nowAt cur cs optimal)"
proof (induction cs arbitrary: S optimal)
  case Nil
  then show ?case by simp
next
  case (Cons i cs)
  have S: "S \<union> set (i # cs) = insert i S \<union> set cs" by simp
  from Cons.IH [OF consider_core_best [OF Cons.prems, of i]]
  show ?case unfolding S by simp
qed

lemma count_pos_ex: "0 < count m \<Longrightarrow> \<exists>i < length m. m ! i"
proof -
  assume "0 < count m"
  then have "filter (\<lambda>b. b) m \<noteq> []" by (auto simp: count_def)
  then obtain b where "b \<in> set m" "b" by (metis filter_False)
  then show ?thesis by (auto simp: in_set_conv_nth)
qed

lemma select_core_minimal:
  assumes ids: "\<forall>i < length (cores st). id_core (cores st ! i) = i"
      and mask: "length (affinityMask (threads st thread)) = length (cores st)"
      and multi: "1 < count (affinityMask (threads st thread))"
  shows "\<exists>opt m. select_core st thread nowAt cur [0 ..< length (cores st)] None = Some (opt, m)
           \<and> minimal_at st thread nowAt opt
           \<and> (minimal_at st thread nowAt cur \<longrightarrow> opt = cur)"
proof -
  let ?adm = "\<lambda>i. test (affinityMask (threads st thread)) (id_core (cores st ! i))"
  let ?pw = "\<lambda>i. projected_wait st thread (nowAt i) (cores st ! i)"
  let ?S = "{0 ..< length (cores st)}"
  have "best_of ?adm ?pw cur {} None" by (simp add: best_of_def)
  from select_core_best [OF this, of "[0 ..< length (cores st)]"]
  have best: "best_of ?adm ?pw cur ?S (select_core st thread nowAt cur [0 ..< length (cores st)] None)"
    by simp
  from multi have "0 < count (affinityMask (threads st thread))" by simp
  from count_pos_ex [OF this] obtain j where j: "j < length (cores st)"
      "affinityMask (threads st thread) ! j" using mask by auto
  with ids mask have admj: "?adm j" by (simp add: test_def)
  show ?thesis
  proof (cases "select_core st thread nowAt cur [0 ..< length (cores st)] None")
    case None
    with best have "\<forall>i\<in>?S. \<not> ?adm i" by (simp add: best_of_def)
    with j(1) admj show ?thesis by auto
  next
    case (Some a)
    obtain opt m where a: "a = (opt, m)" by (cases a)
    from best Some a have b: "best_of ?adm ?pw cur ?S (Some (opt, m))" by simp
    note d = best_of_SomeD [OF b]
    have min: "minimal_at st thread nowAt opt"
      unfolding minimal_at_def admitted_def projection_def
      using d(1,2,4) by auto
    have "minimal_at st thread nowAt cur \<longrightarrow> opt = cur"
    proof
      assume c: "minimal_at st thread nowAt cur"
      then have c1: "cur \<in> ?S" "?adm cur" by (auto simp: minimal_at_def admitted_def)
      from c min have "?pw cur \<le> ?pw opt"
        by (simp add: minimal_at_def admitted_def projection_def)
      moreover from d(4) c1 have "?pw opt \<le> ?pw cur" by blast
      ultimately have "?pw cur = ?pw opt" by (rule antisym)
      with d(5) c1 show "opt = cur" by blast
    qed
    with Some a min show ?thesis by simp
  qed
qed

lemma balanced_projection:
  "projection balanced 1 (\<lambda>i. 100) 0 = 2" "projection balanced 1 (\<lambda>i. 100) 1 = 2"
  by (simp_all add: projection_def projected_wait_def sample_defs running_share_def
      resident_share_def prio_def)

lemma balanced_admitted: "admitted balanced 1 i = (i = 0 \<or> i = 1)"
  by (auto simp: admitted_def sample_defs test_def nth_Cons split: nat.splits)

subsection \<open>The scan of ParkThread keeps the last core that qualifies\<close>

lemma upd_coreId_same: "upd_thread self (\<lambda>k. k\<lparr>coreId := coreId (threads s self)\<rparr>) s = s"
  by (simp add: upd_thread_def)

lemma upd_coreId_twice:
  "upd_thread self (\<lambda>k. k\<lparr>coreId := a\<rparr>) (upd_thread self (\<lambda>k. k\<lparr>coreId := b\<rparr>) s)
   = upd_thread self (\<lambda>k. k\<lparr>coreId := a\<rparr>) s"
  by (simp add: upd_thread_def)

lemma park_cond_upd [simp]:
  "park_cond (upd_thread self (\<lambda>k. k\<lparr>coreId := a\<rparr>) s) self = park_cond s self"
  by (simp add: park_cond_def fun_eq_iff prio_def)

lemma park_scan_alt:
  "park_scan self orig s c =
     (if park_cond s self orig c then upd_thread self (\<lambda>k. k\<lparr>coreId := id_core c\<rparr>) s else s)"
  by (simp add: park_scan_def park_cond_def)

lemma park_scan_fold:
  "foldl (park_scan self orig) s cs =
   upd_thread self (\<lambda>k. k\<lparr>coreId :=
      foldl (\<lambda>a core. if park_cond s self orig core then id_core core else a)
        (coreId (threads s self)) cs\<rparr>) s"
proof (induction cs arbitrary: s)
  case Nil
  show ?case by (simp add: upd_coreId_same)
next
  case (Cons c cs)
  show ?case
  proof (cases "park_cond s self orig c")
    case True
    then have "park_scan self orig s c = upd_thread self (\<lambda>k. k\<lparr>coreId := id_core c\<rparr>) s"
      by (simp add: park_scan_alt)
    with True show ?thesis by (simp add: Cons.IH upd_coreId_twice)
  next
    case False
    then have "park_scan self orig s c = s"
      by (simp add: park_scan_alt)
    with False show ?thesis by (simp add: Cons.IH)
  qed
qed

lemma last_qualifying:
  assumes "k < length cs" and "P (cs ! k)" and "\<forall>j < length cs. P (cs ! j) \<longrightarrow> j \<le> k"
  shows "foldl (\<lambda>a core. if P core then id_core core else a) a0 cs = id_core (cs ! k)"
  using assms
proof (induction cs rule: rev_induct)
  case Nil
  then show ?case by simp
next
  case (snoc x xs)
  show ?case
  proof (cases "k = length xs")
    case True
    with snoc.prems(2) show ?thesis by simp
  next
    case False
    with snoc.prems(1) have k: "k < length xs" by simp
    have "\<not> P x"
    proof
      assume "P x"
      then have "P ((xs @ [x]) ! length xs)" by simp
      with snoc.prems(3) have "length xs \<le> k" by (metis length_append_singleton lessI)
      with k show False by simp
    qed
    moreover have "foldl (\<lambda>a core. if P core then id_core core else a) a0 xs = id_core (xs ! k)"
    proof (rule snoc.IH [OF k])
      show "P (xs ! k)" using snoc.prems(2) k by (simp add: nth_append)
      show "\<forall>j<length xs. P (xs ! j) \<longrightarrow> j \<le> k"
        using snoc.prems(3) by (auto simp: nth_append)
    qed
    ultimately show ?thesis using k by (simp add: nth_append)
  qed
qed

lemma park_two_admits: "park_admits park_two 6 j = (j = 1 \<or> j = 2)"
  by (auto simp: park_admits_def sample_defs test_def prio_def nth_Cons split: nat.splits)

subsection \<open>Sorted queues\<close>

lemma bound_search_sorted:
  assumes "sorted (map f q)"
  shows "takeWhile (\<lambda>u. f u \<le> p) q = take (bound_search (\<lambda>u. f u \<le> p) q 0 (length q)) q"
proof (rule takeWhile_eq_take_P_nth)
  let ?r = "bound_search (\<lambda>u. f u \<le> p) q 0 (length q)"
  note inv = bound_search_inv [of 0 "\<lambda>u. f u \<le> p" q "length q"]
  fix i assume i: "i < ?r" "i < length q"
  then have r: "?r \<noteq> 0" "?r - 1 < length q" "i \<le> ?r - 1" using inv by auto
  with inv have "f (q ! (?r - 1)) \<le> p" by simp
  moreover have "f (q ! i) \<le> f (q ! (?r - 1))"
    using assms r by (simp add: sorted_iff_nth_mono)
  ultimately show "f (q ! i) \<le> p" by simp
next
  let ?r = "bound_search (\<lambda>u. f u \<le> p) q 0 (length q)"
  note inv = bound_search_inv [of 0 "\<lambda>u. f u \<le> p" q "length q"]
  assume "?r < length q"
  with inv show "\<not> f (q ! ?r) \<le> p" by simp
qed

lemma upper_bound_sorted:
  assumes "sorted (map (prio st) q)"
  shows "take (upper_bound st q p) q = takeWhile (\<lambda>u. prio st u \<le> p) q"
    and "drop (upper_bound st q p) q = dropWhile (\<lambda>u. prio st u \<le> p) q"
proof -
  have g: "(\<lambda>it. \<not> IsHigherPriority st p it) = (\<lambda>u. prio st u \<le> p)"
    by (auto simp: IsHigherPriority_def fun_eq_iff)
  have r: "upper_bound st q p = bound_search (\<lambda>u. prio st u \<le> p) q 0 (length q)"
    by (simp add: upper_bound_def g)
  from bound_search_sorted [OF assms, of p]
  show t: "take (upper_bound st q p) q = takeWhile (\<lambda>u. prio st u \<le> p) q"
    unfolding r by simp
  have "upper_bound st q p \<le> length q" by (rule upper_bound_le)
  then have "length (takeWhile (\<lambda>u. prio st u \<le> p) q) = upper_bound st q p"
    using t [symmetric] by simp
  then show "drop (upper_bound st q p) q = dropWhile (\<lambda>u. prio st u \<le> p) q"
    by (simp add: dropWhile_eq_drop)
qed

lemma insert_at_sorted:
  "sorted (map (prio st) q) \<Longrightarrow> insert_at (upper_bound st q (prio st t)) t q = placed st t q"
  by (simp add: insert_at_def placed_def upper_bound_sorted)

lemma dropWhile_above:
  "sorted (map f q) \<Longrightarrow> \<forall>u\<in>set (dropWhile (\<lambda>u. f u \<le> p) q). p < f u"
proof (induction q)
  case Nil
  show ?case by simp
next
  case (Cons x xs)
  from Cons.prems have sx: "sorted (map f xs)" and le: "\<forall>u\<in>set xs. f x \<le> f u" by simp_all
  show ?case
  proof (cases "f x \<le> p")
    case True
    with Cons.IH [OF sx] show ?thesis by simp
  next
    case False
    then have px: "p < f x" by simp
    have "\<forall>u\<in>set (x # xs). p < f u"
    proof
      fix u assume "u \<in> set (x # xs)"
      then consider "u = x" | "u \<in> set xs" by auto
      then show "p < f u"
      proof cases
        case 1 with px show ?thesis by simp
      next
        case 2 with le have "f x \<le> f u" by simp
        with px show ?thesis by (rule less_le_trans)
      qed
    qed
    with False show ?thesis by simp
  qed
qed

lemma sorted_between:
  assumes "sorted (map f (A @ B))" and "\<forall>u\<in>set A. f u \<le> f t" and "\<forall>u\<in>set B. f t \<le> f u"
  shows "sorted (map f (A @ t # B))"
  using assms by (simp add: sorted_append)

lemma placed_sorted:
  assumes "sorted (map (prio st) q)"
  shows "sorted (map (prio st) (placed st t q))"
  unfolding placed_def
proof (rule sorted_between)
  let ?P = "\<lambda>u. prio st u \<le> prio st t"
  show "sorted (map (prio st) (takeWhile ?P q @ dropWhile ?P q))" using assms by simp
  show "\<forall>u\<in>set (takeWhile ?P q). prio st u \<le> prio st t"
    by (blast dest: set_takeWhileD)
  show "\<forall>u\<in>set (dropWhile ?P q). prio st t \<le> prio st u"
  proof
    fix u assume "u \<in> set (dropWhile ?P q)"
    with dropWhile_above [OF assms, of "prio st t"] have "prio st t < prio st u" by (rule bspec)
    then show "prio st t \<le> prio st u" by (rule less_imp_le)
  qed
qed

lemma upper_bound_0_sorted:
  assumes "sorted (map (prio st) q)" "q \<noteq> []"
  shows "upper_bound st q p = 0 \<longleftrightarrow> p < prio st (hd q)"
proof -
  from upper_bound_sorted(1) [OF assms(1), of p]
  have t: "take (upper_bound st q p) q = takeWhile (\<lambda>u. prio st u \<le> p) q" .
  obtain x xs where q: "q = x # xs" using assms(2) by (cases q) auto
  show ?thesis
  proof
    assume "upper_bound st q p = 0"
    with t have "takeWhile (\<lambda>u. prio st u \<le> p) q = []" by simp
    with q show "p < prio st (hd q)" by (auto split: if_splits)
  next
    assume "p < prio st (hd q)"
    with q have "takeWhile (\<lambda>u. prio st u \<le> p) q = []" by simp
    with t have "take (upper_bound st q p) q = []" by simp
    with q show "upper_bound st q p = 0" by simp
  qed
qed

lemma all_sorted_set_queue:
  assumes "all_sorted st" and "prio st' = prio st"
      and "cores st' = (cores st)[c := (cores st ! c)\<lparr>queue := q'\<rparr>]"
      and "sorted (map (prio st) q')"
  shows "all_sorted st'"
  unfolding all_sorted_def queue_sorted_def
proof (intro allI impI)
  fix d assume "d < length (cores st')"
  then have d: "d < length (cores st)" using assms(3) by simp
  show "sorted (map (prio st') (queue (cores st' ! d)))"
  proof (cases "d = c")
    case True
    with d assms show ?thesis by simp
  next
    case False
    with d assms show ?thesis by (simp add: all_sorted_def queue_sorted_def)
  qed
qed

lemma InsertThread_order:
  assumes s: "all_sorted st" and i: "InsertThread self t st = Inr st'"
  shows "cores st' = (cores st)[coreId (threads st t) := (cores st ! coreId (threads st t))
           \<lparr>queue := (if dethrones self t st
                       then behind_front t (queue (cores st ! coreId (threads st t)))
                       else placed st t (queue (cores st ! coreId (threads st t))))\<rparr>]
         \<and> prio st' = prio st
         \<and> (\<not> dethrones self t st \<longrightarrow> all_sorted st')"
proof -
  let ?c = "coreId (threads st t)"
  let ?q = "queue (cores st ! ?c)"
  have c: "?c < length (cores st)"
    using i by (auto simp: InsertThread_def Let_def split: if_splits)
  from InsertThread_effect [OF c, of self] i have
    cs: "cores st' = (cores st)[?c := (cores st ! ?c)\<lparr>queue := insert_at (insert_pos self t st) t ?q\<rparr>]"
    and pr: "prio st' = prio st" by auto
  have sq: "sorted (map (prio st) ?q)" using s c by (simp add: all_sorted_def queue_sorted_def)
  have d: "dethrones self t st \<longleftrightarrow> upper_bound st ?q (prio st t) = 0 \<and> ?q \<noteq> [] \<and> self \<noteq> t"
    using upper_bound_0_sorted [OF sq, of "prio st t"] by (auto simp: dethrones_def)
  show ?thesis
  proof (cases "dethrones self t st")
    case True
    with d have "insert_pos self t st = 1" by (simp add: insert_pos_def)
    moreover from True have "?q \<noteq> []" by (simp add: dethrones_def)
    ultimately have "insert_at (insert_pos self t st) t ?q = behind_front t ?q"
      by (cases ?q) (simp_all add: insert_at_def behind_front_def)
    with cs pr True show ?thesis by simp
  next
    case False
    with d have "insert_pos self t st = upper_bound st ?q (prio st t)"
      by (auto simp: insert_pos_def Let_def)
    with insert_at_sorted [OF sq, of t]
    have p: "insert_at (insert_pos self t st) t ?q = placed st t ?q" by simp
    have "all_sorted st'"
      by (rule all_sorted_set_queue [OF s pr cs [unfolded p] placed_sorted [OF sq]])
    with cs pr p False show ?thesis by simp
  qed
qed

lemma all_sorted_cong:
  "cores s' = cores s \<Longrightarrow> prio s' = prio s \<Longrightarrow> all_sorted s' = all_sorted s"
  by (simp add: all_sorted_def queue_sorted_def)

lemma sorted_map_tl: "sorted (map f xs) \<Longrightarrow> sorted (map f (tl xs))"
  by (cases xs) simp_all

lemma all_sorted_but_front: "all_sorted st \<Longrightarrow> c < length (cores st) \<Longrightarrow> sorted_but_front st c"
  by (simp add: all_sorted_def sorted_but_front_def queue_sorted_def sorted_map_tl)

lemma InsertThread_but_front:
  assumes s: "all_sorted st" and i: "InsertThread self t st = Inr st'"
  shows "sorted_but_front st' (coreId (threads st t))"
proof -
  let ?c = "coreId (threads st t)"
  let ?q = "queue (cores st ! ?c)"
  have c: "?c < length (cores st)"
    using i by (auto simp: InsertThread_def Let_def split: if_splits)
  note o = InsertThread_order [OF s i]
  then have len: "length (cores st') = length (cores st)" by simp
  show ?thesis
  proof (cases "dethrones self t st")
    case False
    with o have "all_sorted st'" by simp
    then show ?thesis using c len by (simp add: all_sorted_but_front)
  next
    case True
    with o have cs: "cores st' = (cores st)[?c := (cores st ! ?c)\<lparr>queue := behind_front t ?q\<rparr>]"
      and pr: "prio st' = prio st" by simp_all
    from True have ne: "?q \<noteq> []" and lt: "prio st t < prio st (hd ?q)"
      by (simp_all add: dethrones_def)
    from s c have sq: "sorted (map (prio st) ?q)" by (simp add: all_sorted_def queue_sorted_def)
    obtain x xs where q: "?q = x # xs" using ne by (cases ?q) auto
    from sq q have "sorted (map (prio st) xs)" "\<forall>u\<in>set xs. prio st x \<le> prio st u" by simp_all
    with lt q have "sorted (map (prio st) (t # xs))" by fastforce
    then have tl: "sorted (map (prio st') (tl (queue (cores st' ! ?c))))"
      using c q by (simp add: cs pr behind_front_def)
    have "\<forall>d < length (cores st'). d \<noteq> ?c \<longrightarrow> queue_sorted st' d"
      using s by (simp add: cs pr all_sorted_def queue_sorted_def)
    with tl show ?thesis by (simp add: sorted_but_front_def)
  qed
qed

lemma RemoveThread_order:
  assumes s: "all_sorted st" and r: "RemoveThread self now st = Inr st'"
  shows "cores st' = (cores st)[coreId (threads st self) := (cores st ! coreId (threads st self))
           \<lparr>queue := remove1 self (queue (cores st ! coreId (threads st self)))\<rparr>]
         \<and> prio st' = prio st \<and> all_sorted st'"
proof -
  let ?c = "coreId (threads st self)"
  have c: "?c < length (cores st)"
    using r by (auto simp: RemoveThread_def split: if_splits)
  from RemoveThread_effect [OF c, of now] r have
    cs: "cores st' = (cores st)[?c := (cores st ! ?c)\<lparr>queue := remove1 self (queue (cores st ! ?c))\<rparr>]"
    and pr: "prio st' = prio st" by auto
  from s c have "sorted (map (prio st) (queue (cores st ! ?c)))"
    by (simp add: all_sorted_def queue_sorted_def)
  then have "sorted (map (prio st) (remove1 self (queue (cores st ! ?c))))"
    by (rule sorted_map_remove1)
  from all_sorted_set_queue [OF s pr cs this] cs pr show ?thesis by simp
qed

lemma splice_front_sorted:
  assumes sq: "sorted (map (prio st) q)" and ne: "q \<noteq> []"
  shows "splice_front (upper_bound st q (prio st (hd q))) q = placed st (hd q) (tl q)"
proof -
  obtain x xs where q: "q = x # xs" using ne by (cases q) auto
  let ?P = "\<lambda>u. prio st u \<le> prio st x"
  from upper_bound_sorted(1) [OF sq, of "prio st x"] q
  have "take (upper_bound st q (prio st x)) q = x # takeWhile ?P xs" by simp
  then have "length (take (upper_bound st q (prio st x)) q) = Suc (length (takeWhile ?P xs))"
    by simp
  with upper_bound_le [of st q "prio st x"]
  have ub: "upper_bound st q (prio st x) = Suc (length (takeWhile ?P xs))" by simp
  have "take (length (takeWhile ?P xs)) xs = takeWhile ?P xs"
    by (rule takeWhile_eq_take [symmetric])
  moreover have "drop (length (takeWhile ?P xs)) xs = dropWhile ?P xs"
    by (rule dropWhile_eq_drop [symmetric])
  ultimately show ?thesis using q ub by (simp add: splice_front_def placed_def)
qed

lemma Rotate_effect:
  assumes r: "Rotate self cooperative now st = Inr st'"
  shows "coreId (threads st self) < length (cores st)
       \<and> queue (cores st ! coreId (threads st self)) \<noteq> []
       \<and> prio st' = prio st
       \<and> cores st' =
           (if hd (queue (cores st ! coreId (threads st self))) = self
            then (cores st)[coreId (threads st self) := (cores st ! coreId (threads st self))
              \<lparr>queue := splice_front
                  (upper_bound st (queue (cores st ! coreId (threads st self))) (prio st self))
                  (queue (cores st ! coreId (threads st self)))\<rparr>]
            else cores st)"
proof -
  let ?c = "coreId (threads st self)"
  let ?q = "queue (cores st ! ?c)"
  have c: "?c < length (cores st)" and ne: "?q \<noteq> []"
    using r by (auto simp: Rotate_def Let_def split: if_splits)
  let ?s1 = "upd_thread self (\<lambda>k. k\<lparr>averageTimeslice :=
                      timeslice_average (averageTimeslice k) now (timesliceStart k)\<rparr>) st"
  have p1: "prio ?s1 = prio st" by (simp add: prio_upd_thread)
  have pa: "prio (account_yield self cooperative s) = prio s" for s
    by (simp add: account_yield_def Let_def prio_upd_thread)
  have ca: "cores (account_yield self cooperative s) = cores s" for s
    by (simp add: account_yield_def Let_def)
  show ?thesis
  proof (cases "hd ?q = self")
    case True
    with r c ne have "st' = upd_thread self (\<lambda>k. k\<lparr>forceYield := False\<rparr>)
        (account_yield self cooperative
          (let s2 = set_queue ?c (splice_front (upper_bound ?s1 ?q (prio ?s1 self)) ?q) ?s1;
               front = hd (splice_front (upper_bound ?s1 ?q (prio ?s1 self)) ?q)
           in if front \<noteq> self then emit (notify_one front) s2 else s2))"
      by (simp add: Rotate_def Let_def)
    then have "prio st' = prio st \<and> cores st' = (cores st)[?c := (cores st ! ?c)
              \<lparr>queue := splice_front (upper_bound st ?q (prio st self)) ?q\<rparr>]"
      by (simp add: Let_def prio_upd_thread pa ca p1 upper_bound_cong [OF p1])
    with c ne True show ?thesis by simp
  next
    case False
    with r c ne have "st' = upd_thread self (\<lambda>k. k\<lparr>forceYield := False\<rparr>)
        (account_yield self cooperative ?s1)"
      by (auto simp: Rotate_def Let_def split: if_splits)
    then have "prio st' = prio st \<and> cores st' = cores st"
      by (simp add: prio_upd_thread pa ca)
    with c ne False show ?thesis by simp
  qed
qed

lemma Rotate_order:
  assumes s: "all_sorted st" and r: "Rotate self cooperative now st = Inr st'"
  shows "cores st' =
           (if hd (queue (cores st ! coreId (threads st self))) = self
            then (cores st)[coreId (threads st self) := (cores st ! coreId (threads st self))
              \<lparr>queue := placed st self (tl (queue (cores st ! coreId (threads st self))))\<rparr>]
            else cores st)
         \<and> prio st' = prio st \<and> all_sorted st'"
proof -
  let ?c = "coreId (threads st self)"
  let ?q = "queue (cores st ! ?c)"
  note e = Rotate_effect [OF r]
  then have c: "?c < length (cores st)" and ne: "?q \<noteq> []" and pr: "prio st' = prio st" by simp_all
  from s c have sq: "sorted (map (prio st) ?q)" by (simp add: all_sorted_def queue_sorted_def)
  show ?thesis
  proof (cases "hd ?q = self")
    case False
    with e have cs: "cores st' = cores st" by simp
    with all_sorted_cong [OF cs pr] s False pr show ?thesis by simp
  next
    case True
    from splice_front_sorted [OF sq ne] True
    have sp: "splice_front (upper_bound st ?q (prio st self)) ?q = placed st self (tl ?q)" by simp
    from e True sp have cs: "cores st' = (cores st)[?c := (cores st ! ?c)
              \<lparr>queue := placed st self (tl ?q)\<rparr>]" by simp
    have "sorted (map (prio st) (placed st self (tl ?q)))"
      by (rule placed_sorted [OF sorted_map_tl [OF sq]])
    from all_sorted_set_queue [OF s pr cs this] cs pr True show ?thesis by simp
  qed
qed

lemma others_sorted_set_queue:
  assumes "\<forall>d < length (cores st). d \<noteq> c \<longrightarrow> queue_sorted st d" and "prio st' = prio st"
      and "cores st' = (cores st)[c := (cores st ! c)\<lparr>queue := q'\<rparr>]"
      and "sorted (map (prio st) q')"
  shows "all_sorted st'"
  unfolding all_sorted_def
proof (intro allI impI)
  fix d assume "d < length (cores st')"
  then have d: "d < length (cores st)" using assms(3) by simp
  show "queue_sorted st' d"
  proof (cases "d = c")
    case True
    with d assms(2,3,4) show ?thesis by (simp add: queue_sorted_def)
  next
    case False
    with d assms(1) have "queue_sorted st d" by simp
    with False d assms(2,3) show ?thesis by (simp add: queue_sorted_def)
  qed
qed

lemma find_iter_not_front: "x \<in> set xs \<Longrightarrow> hd xs \<noteq> x \<Longrightarrow> find_iter xs x \<noteq> 0"
  by (cases xs) auto

lemma remove1_keeps_front: "x \<in> set xs \<Longrightarrow> hd xs \<noteq> x \<Longrightarrow>
    remove1 x xs \<noteq> [] \<and> hd (remove1 x xs) = hd xs"
  by (cases xs) auto

lemma upper_bound_not_self:
  assumes "thread \<in> set q"
  shows "upper_bound st q (prio st thread) \<noteq> find_iter q thread"
proof
  assume e: "upper_bound st q (prio st thread) = find_iter q thread"
  note f = find_iter_present [OF assms]
  note inv = bound_search_inv [of 0 "\<lambda>it. \<not> IsHigherPriority st (prio st thread) it" q "length q"]
  from e f have "bound_search (\<lambda>it. \<not> IsHigherPriority st (prio st thread) it) q 0 (length q)
      \<noteq> 0 + length q" by (simp add: upper_bound_def)
  with inv have "IsHigherPriority st (prio st thread)
      (q ! bound_search (\<lambda>it. \<not> IsHigherPriority st (prio st thread) it) q 0 (length q))"
    by blast
  with e f show False by (simp add: upper_bound_def IsHigherPriority_def)
qed

lemma disarm_moved_simps [simp]:
  "prio (disarm_moved thread core s) = prio s" "cores (disarm_moved thread core s) = cores s"
  by (simp_all add: disarm_moved_def prio_upd_thread)

lemma reinsert_order:
  assumes c: "c < length (cores s2)" and q1: "queue (cores s2 ! c) = q1"
      and sq: "sorted (map (prio s2) q1)" and ne: "q1 \<noteq> []"
  shows "prio (reinsert thread c q1 s2) = prio s2
       \<and> cores (reinsert thread c q1 s2) = (cores s2)[c := (cores s2 ! c)\<lparr>queue :=
              (if prio s2 thread < prio s2 (hd q1) then behind_front thread q1
               else placed s2 thread q1)\<rparr>]"
proof (cases "prio s2 thread < prio s2 (hd q1)")
  case True
  with upper_bound_0_sorted [OF sq ne, of "prio s2 thread"] ne
  have z: "upper_bound s2 q1 (prio s2 thread) = 0" "0 \<noteq> length q1" by simp_all
  have b: "insert_at (Suc 0) thread q1 = behind_front thread q1"
    using ne by (cases q1) (simp_all add: insert_at_def behind_front_def)
  from z True show ?thesis by (simp add: reinsert_def Let_def b)
next
  case False
  with upper_bound_0_sorted [OF sq ne, of "prio s2 thread"]
  have z: "upper_bound s2 q1 (prio s2 thread) \<noteq> 0" by simp
  from z False show ?thesis by (simp add: reinsert_def Let_def insert_at_sorted [OF sq])
qed

lemma UpdatePriority_order:
  assumes c: "coreId (threads st thread) < length (cores st)"
      and inq: "thread \<in> set (queue (cores st ! coreId (threads st thread)))"
      and nh: "hd (queue (cores st ! coreId (threads st thread))) \<noteq> thread"
      and sq: "sorted (map (prio st)
                 (remove1 thread (queue (cores st ! coreId (threads st thread)))))"
      and others: "\<forall>d < length (cores st). d \<noteq> coreId (threads st thread) \<longrightarrow> queue_sorted st d"
  shows "\<exists>st'. UpdatePriority thread st = Inr st' \<and> prio st' = prio st
       \<and> cores st' = (cores st)[coreId (threads st thread) :=
            (cores st ! coreId (threads st thread))\<lparr>queue :=
              (if prio st thread < prio st (hd (queue (cores st ! coreId (threads st thread))))
               then behind_front thread
                      (remove1 thread (queue (cores st ! coreId (threads st thread))))
               else placed st thread
                      (remove1 thread (queue (cores st ! coreId (threads st thread)))))\<rparr>]
       \<and> (\<not> prio st thread < prio st (hd (queue (cores st ! coreId (threads st thread))))
            \<longrightarrow> all_sorted st')"
proof -
  let ?c = "coreId (threads st thread)"
  let ?q = "queue (cores st ! ?c)"
  let ?p = "prio st thread"
  let ?q1 = "remove1 thread ?q"
  let ?ci = "find_iter ?q thread"
  have ci: "?ci \<noteq> length ?q" "?ci \<noteq> 0"
    using find_iter_present [OF inq] find_iter_not_front [OF inq nh] by simp_all
  have ub: "?ci \<noteq> upper_bound st ?q ?p" using upper_bound_not_self [OF inq, of st] by simp
  have q1: "erase_at ?ci ?q = ?q1" by (rule erase_at_find_iter)
  from remove1_keeps_front [OF inq nh] have ne1: "?q1 \<noteq> []" and hd1: "hd ?q1 = hd ?q" by simp_all
  define s2 where "s2 = disarm_moved thread (cores st ! ?c) (set_queue ?c ?q1 st)"
  have p2: "prio s2 = prio st" by (simp add: s2_def)
  have c2: "cores s2 = (cores st)[?c := (cores st ! ?c)\<lparr>queue := ?q1\<rparr>]" by (simp add: s2_def)
  have r: "UpdatePriority thread st = Inr (reinsert thread ?c ?q1 s2)"
    using c ci ub by (simp add: UpdatePriority_def Let_def q1 s2_def)
  have "prio (reinsert thread ?c ?q1 s2) = prio s2
       \<and> cores (reinsert thread ?c ?q1 s2) = (cores s2)[?c := (cores s2 ! ?c)\<lparr>queue :=
              (if prio s2 thread < prio s2 (hd ?q1) then behind_front thread ?q1
               else placed s2 thread ?q1)\<rparr>]"
  proof (rule reinsert_order)
    show "?c < length (cores s2)" using c c2 by simp
    show "queue (cores s2 ! ?c) = ?q1" using c c2 by simp
    show "sorted (map (prio s2) ?q1)" using sq p2 by simp
    show "?q1 \<noteq> []" by (rule ne1)
  qed
  then have p3: "prio (reinsert thread ?c ?q1 s2) = prio st"
    and c3: "cores (reinsert thread ?c ?q1 s2) = (cores st)[?c := (cores st ! ?c)\<lparr>queue :=
              (if ?p < prio st (hd ?q) then behind_front thread ?q1
               else placed st thread ?q1)\<rparr>]"
    using c by (simp_all add: p2 c2 hd1 placed_def)
  have "all_sorted (reinsert thread ?c ?q1 s2)" if "\<not> ?p < prio st (hd ?q)"
  proof (rule others_sorted_set_queue [OF others p3 _ placed_sorted [OF sq]])
    show "cores (reinsert thread ?c ?q1 s2) =
        (cores st)[?c := (cores st ! ?c)\<lparr>queue := placed st thread ?q1\<rparr>]"
      using c3 that by simp
  qed
  with r p3 c3 show ?thesis by simp
qed

lemma InsertThread_summary:
  assumes s: "all_sorted st" and i: "InsertThread self t st = Inr st'"
  shows "prio st' = prio st \<and> coreId (threads st' t) = coreId (threads st t)
       \<and> sorted_but_front st' (coreId (threads st' t))
       \<and> (t = self \<longrightarrow> all_sorted st')"
proof -
  have c: "coreId (threads st t) < length (cores st)"
    using i by (auto simp: InsertThread_def Let_def split: if_splits)
  from InsertThread_effect [OF c, of self] i
  have cid: "coreId (threads st' t) = coreId (threads st t)" by auto
  from InsertThread_order [OF s i] have pr: "prio st' = prio st"
    and a: "\<not> dethrones self t st \<longrightarrow> all_sorted st'" by simp_all
  from a have "t = self \<longrightarrow> all_sorted st'" by (auto simp: dethrones_def)
  with pr cid InsertThread_but_front [OF s i] show ?thesis by simp
qed

lemma insert_if_summary:
  assumes s: "all_sorted st" and i: "insert_if b self t st = Inr st'"
      and c: "coreId (threads st t) < length (cores st)"
  shows "prio st' = prio st \<and> coreId (threads st' t) = coreId (threads st t)
       \<and> sorted_but_front st' (coreId (threads st' t))
       \<and> (t = self \<or> \<not> b \<longrightarrow> all_sorted st')"
proof (cases b)
  case True
  with i have "InsertThread self t st = Inr st'" by (simp add: insert_if_def)
  from InsertThread_summary [OF s this] True show ?thesis by auto
next
  case False
  with i have "st' = st" by (simp add: insert_if_def)
  with s c False show ?thesis by (simp add: all_sorted_but_front)
qed

lemma emit_sorted [simp]:
  "all_sorted (emit e st) = all_sorted st" "sorted_but_front (emit e st) c = sorted_but_front st c"
  by (simp_all add: all_sorted_def sorted_but_front_def queue_sorted_def)

lemma leave_core_order:
  assumes s: "all_sorted st" and l: "leave_core alwaysInsert self thread now st = Inr s1"
  shows "all_sorted s1 \<and> prio s1 = prio st"
proof (cases "\<not> alwaysInsert \<and> thread = self")
  case True
  with l have "RemoveThread self now st = Inr s1" by (simp add: leave_core_def)
  from RemoveThread_order [OF s this] show ?thesis by simp
next
  case False
  with l have "s1 = st" by (auto simp: leave_core_def split: if_splits)
  with s show ?thesis by simp
qed

lemma migrate_order:
  assumes s: "all_sorted st"
      and m: "migrate self thread alwaysInsert now cur optimal st = Inr (st', c)"
  shows "prio st' = prio st
       \<and> sorted_but_front st' (coreId (threads st' thread))
       \<and> (thread = self \<longrightarrow> all_sorted st')"
proof -
  from m obtain s1 where l: "leave_core alwaysInsert self thread now st = Inr s1"
    by (auto simp: migrate_def split: sum.splits)
  from m l obtain oc mt where opt: "optimal = Some (oc, mt)"
    by (auto simp: migrate_def split: option.splits)
  let ?s2 = "upd_thread thread (\<lambda>k. k\<lparr>coreId := id_core (cores s1 ! oc)\<rparr>) s1"
  from m l opt obtain s3 where i: "InsertThread self thread ?s2 = Inr s3"
    by (auto simp: migrate_def Let_def split: sum.splits)
  from m l opt i have st': "st' = emit (Debug_migrated thread (id_core (cores s3 ! cur))
                                    (id_core (cores s3 ! oc))) s3"
    by (auto simp: migrate_def Let_def)
  note s1 = leave_core_order [OF s l]
  have p2: "prio ?s2 = prio s1" by (simp add: prio_upd_thread)
  have "all_sorted ?s2" using s1 all_sorted_cong [of ?s2 s1] p2 by simp
  from InsertThread_summary [OF this i] p2 s1 show ?thesis unfolding st' by auto
qed

lemma LoadBalance_order:
  assumes s: "all_sorted st"
      and r: "LoadBalance self thread alwaysInsert now nowAt st = Inr (st', c)"
  shows "prio st' = prio st
       \<and> sorted_but_front st' (coreId (threads st' thread))
       \<and> (thread = self \<or> \<not> alwaysInsert \<longrightarrow> all_sorted st')"
proof -
  let ?cur = "coreId (threads st thread)"
  have cur: "?cur < length (cores st)"
    using r by (auto simp: LoadBalance_def Let_def split: if_splits)
  let ?opt = "select_core st thread nowAt ?cur [0 ..< length (cores st)] None"
  have stay: ?thesis
    if i: "insert_if alwaysInsert self thread st = Inr s1" and e: "st' = emit e s1" for s1 e
    using insert_if_summary [OF s i cur] unfolding e by auto
  show ?thesis
  proof (cases "queue (cores st ! ?cur) \<noteq> [] \<and> count (affinityMask (threads st thread)) \<noteq> 1")
    case False
    with r cur obtain s1 where "insert_if alwaysInsert self thread st = Inr s1"
      "st' = emit (Debug_early thread (id_core (cores s1 ! ?cur))) s1"
      by (auto simp: LoadBalance_def Let_def split: sum.splits)
    then show ?thesis by (rule stay)
  next
    case True
    show ?thesis
    proof (cases "map_option fst ?opt \<noteq> Some ?cur")
      case False
      with r cur True obtain s1 where "insert_if alwaysInsert self thread st = Inr s1"
        "st' = emit (Debug_late thread (id_core (cores s1 ! ?cur))) s1"
        by (auto simp: LoadBalance_def Let_def split: sum.splits)
      then show ?thesis by (rule stay)
    next
      case mv: True
      with r cur True have m: "migrate self thread alwaysInsert now ?cur ?opt st = Inr (st', c)"
        by (simp add: LoadBalance_def Let_def)
      have na: "thread = self" if "\<not> alwaysInsert"
        using m that by (auto simp: migrate_def leave_core_def split: if_splits)
      from migrate_order [OF s m] na show ?thesis by auto
    qed
  qed
qed

lemma wait_cond_sorted:
  assumes "\<forall>other\<in>set others. \<forall>s. all_sorted s \<longrightarrow> all_sorted (other s)"
      and "all_sorted st" and "wait_cond pred others st = Some s'"
  shows "all_sorted s'"
  using assms
proof (induction others arbitrary: st)
  case Nil
  then show ?case by (simp split: if_splits)
next
  case (Cons other others)
  show ?case
  proof (cases "pred st")
    case True
    with Cons.prems show ?thesis by simp
  next
    case False
    with Cons.prems(3) have w: "wait_cond pred others (other st) = Some s'" by simp
    from Cons.prems(1,2) have a: "all_sorted (other st)" by simp
    from Cons.prems(1) have b: "\<forall>other\<in>set others. \<forall>s. all_sorted s \<longrightarrow> all_sorted (other s)"
      by simp
    show ?thesis by (rule Cons.IH [OF b a w])
  qed
qed

lemma park_target_simps [simp]:
  "cores (park_target self P s) = cores s" "prio (park_target self P s) = prio s"
  "parkedQueue (park_target self P s) = parkedQueue s"
  by (simp_all add: park_target_def Let_def park_scan_fold prio_upd_thread)

lemma placed_cong: "prio s' = prio s \<Longrightarrow> placed s' t q = placed s t q"
  by (simp add: placed_def)

lemma outranks_cong: "prio s' = prio s \<Longrightarrow> outranks s' self t q = outranks s self t q"
  by (simp add: outranks_def)

lemma dethrones_outranks:
  "dethrones self t st = outranks st self t (queue (cores st ! coreId (threads st t)))"
  by (simp add: dethrones_def outranks_def)

lemma InsertThread_place:
  assumes s: "all_sorted st" and i: "InsertThread self t st = Inr st'"
  shows "coreId (threads st' t) = coreId (threads st t)
       \<and> coreId (threads st t) < length (cores st)
       \<and> prio st' = prio st
       \<and> cores st' = (cores st)[coreId (threads st t) := (cores st ! coreId (threads st t))
           \<lparr>queue := (if outranks st self t (queue (cores st ! coreId (threads st t)))
                       then behind_front t (queue (cores st ! coreId (threads st t)))
                       else placed st t (queue (cores st ! coreId (threads st t))))\<rparr>]
       \<and> (\<not> outranks st self t (queue (cores st ! coreId (threads st t))) \<longrightarrow> all_sorted st')
       \<and> sorted_but_front st' (coreId (threads st t))"
proof -
  have c: "coreId (threads st t) < length (cores st)"
    using i by (auto simp: InsertThread_def Let_def split: if_splits)
  from InsertThread_effect [OF c, of self] i
  have cid: "coreId (threads st' t) = coreId (threads st t)" by auto
  from InsertThread_order [OF s i] InsertThread_but_front [OF s i] c cid
  show ?thesis by (simp add: dethrones_outranks)
qed

lemma insert_if_place:
  assumes s: "all_sorted st" and i: "insert_if b self t st = Inr s1"
  shows "coreId (threads s1 t) = coreId (threads st t)
       \<and> (b \<longrightarrow> cores s1 = (cores st)[coreId (threads st t) := (cores st ! coreId (threads st t))
           \<lparr>queue := (if outranks st self t (queue (cores st ! coreId (threads st t)))
                       then behind_front t (queue (cores st ! coreId (threads st t)))
                       else placed st t (queue (cores st ! coreId (threads st t))))\<rparr>])
       \<and> (\<not> b \<longrightarrow> cores s1 = cores st)
       \<and> (\<not> (b \<and> outranks st self t (queue (cores st ! coreId (threads st t))))
            \<longrightarrow> all_sorted s1)"
proof (cases b)
  case True
  with i have "InsertThread self t st = Inr s1" by (simp add: insert_if_def)
  from InsertThread_place [OF s this] True show ?thesis by simp
next
  case False
  with i have "s1 = st" by (simp add: insert_if_def)
  with s False show ?thesis by simp
qed

lemma leave_core_place:
  assumes s: "all_sorted st" and l: "leave_core alwaysInsert self t now st = Inr s1"
  shows "all_sorted s1 \<and> prio s1 = prio st \<and> cores s1 = lb_before alwaysInsert t st
       \<and> (\<not> alwaysInsert \<longrightarrow> t = self)"
proof (cases "\<not> alwaysInsert \<and> t = self")
  case True
  with l have "RemoveThread self now st = Inr s1" by (simp add: leave_core_def)
  from RemoveThread_order [OF s this] True show ?thesis by (simp add: lb_before_def vacated_def)
next
  case False
  with l have "s1 = st \<and> alwaysInsert" by (auto simp: leave_core_def split: if_splits)
  with s show ?thesis by (simp add: lb_before_def vacated_def)
qed

lemma migrate_place:
  assumes s: "all_sorted st"
      and m: "migrate self t alwaysInsert now cur optimal st = Inr (st', c)"
  shows "map_option fst optimal = Some c
       \<and> cores st' = (lb_before alwaysInsert t st)[coreId (threads st' t) :=
           (lb_before alwaysInsert t st ! coreId (threads st' t))
           \<lparr>queue :=
              (if outranks st self t (queue (lb_before alwaysInsert t st ! coreId (threads st' t)))
               then behind_front t (queue (lb_before alwaysInsert t st ! coreId (threads st' t)))
               else placed st t (queue (lb_before alwaysInsert t st ! coreId (threads st' t))))\<rparr>]
       \<and> (\<not> (alwaysInsert
              \<and> outranks st self t (queue (lb_before alwaysInsert t st ! coreId (threads st' t))))
            \<longrightarrow> all_sorted st')"
proof -
  from m obtain s1 where l: "leave_core alwaysInsert self t now st = Inr s1"
    by (auto simp: migrate_def split: sum.splits)
  from m l obtain oc mt where opt: "optimal = Some (oc, mt)"
    by (auto simp: migrate_def split: option.splits)
  define s2 where "s2 = upd_thread t (\<lambda>k. k\<lparr>coreId := id_core (cores s1 ! oc)\<rparr>) s1"
  from m l opt obtain s3 where i: "InsertThread self t s2 = Inr s3"
    by (auto simp: migrate_def Let_def s2_def split: sum.splits)
  from m l opt i have st': "st' = emit (Debug_migrated t (id_core (cores s3 ! cur))
                                    (id_core (cores s3 ! oc))) s3" and c: "c = oc"
    by (auto simp: migrate_def Let_def s2_def)
  note s1 = leave_core_place [OF s l]
  have p2: "prio s2 = prio st" using s1 by (simp add: s2_def prio_upd_thread)
  have c2: "cores s2 = lb_before alwaysInsert t st" using s1 by (simp add: s2_def)
  have "all_sorted s2" using s1 all_sorted_cong [of s2 s1] by (simp add: s2_def prio_upd_thread)
  note p = InsertThread_place [OF this i]
  have d: "coreId (threads st' t) = coreId (threads s2 t)" using p by (simp add: st')
  have na: "\<not> outranks st self t q" if "\<not> alwaysInsert" for q
    using s1 that by (simp add: outranks_def)
  from p have "cores st' = (lb_before alwaysInsert t st)[coreId (threads st' t) :=
           (lb_before alwaysInsert t st ! coreId (threads st' t))
           \<lparr>queue :=
              (if outranks st self t (queue (lb_before alwaysInsert t st ! coreId (threads st' t)))
               then behind_front t (queue (lb_before alwaysInsert t st ! coreId (threads st' t)))
               else placed st t (queue (lb_before alwaysInsert t st ! coreId (threads st' t))))\<rparr>]"
    unfolding d by (simp add: st' c2 placed_cong [OF p2] outranks_cong [OF p2])
  moreover from p have "\<not> outranks st self t
         (queue (lb_before alwaysInsert t st ! coreId (threads st' t))) \<longrightarrow> all_sorted st'"
    unfolding d by (simp add: st' c2 outranks_cong [OF p2])
  ultimately show ?thesis using opt c na [of "queue (lb_before alwaysInsert t st ! coreId (threads st' t))"]
    by (cases alwaysInsert) simp_all
qed

lemma sum_case_InrD:
  "(case x of Inl e \<Rightarrow> Inl e | Inr s1 \<Rightarrow> Inr (f s1, cur)) = Inr (st', c)
   \<Longrightarrow> \<exists>s1. x = Inr s1 \<and> st' = f s1 \<and> c = cur"
  by (cases x) auto

lemma LoadBalance_place:
  assumes s: "all_sorted st"
      and r: "LoadBalance self t alwaysInsert now nowAt st = Inr (st', c)"
  shows "(alwaysInsert \<or> c \<noteq> coreId (threads st t) \<longrightarrow>
           cores st' = (lb_before alwaysInsert t st)[coreId (threads st' t) :=
             (lb_before alwaysInsert t st ! coreId (threads st' t))
             \<lparr>queue :=
                (if outranks st self t
                      (queue (lb_before alwaysInsert t st ! coreId (threads st' t)))
                 then behind_front t
                        (queue (lb_before alwaysInsert t st ! coreId (threads st' t)))
                 else placed st t
                        (queue (lb_before alwaysInsert t st ! coreId (threads st' t))))\<rparr>])
       \<and> (\<not> alwaysInsert \<and> c = coreId (threads st t) \<longrightarrow> cores st' = cores st)
       \<and> (\<not> (alwaysInsert
              \<and> outranks st self t (queue (lb_before alwaysInsert t st ! coreId (threads st' t))))
            \<longrightarrow> all_sorted st')"
proof -
  let ?cur = "coreId (threads st t)"
  have cur: "?cur < length (cores st)"
    using r by (auto simp: LoadBalance_def Let_def split: if_splits)
  let ?opt = "select_core st t nowAt ?cur [0 ..< length (cores st)] None"
  have stay: ?thesis
    if i: "insert_if alwaysInsert self t st = Inr s1" and e: "st' = emit e s1" and c: "c = ?cur"
    for s1 e
  proof -
    note p = insert_if_place [OF s i]
    then have d: "coreId (threads st' t) = ?cur" by (simp add: e)
    have cs: "cores st' = cores s1" by (simp add: e)
    have srt: "all_sorted st' = all_sorted s1" by (simp add: e emit_sorted)
    show ?thesis
    proof (cases alwaysInsert)
      case True
      then have lb: "lb_before alwaysInsert t st = cores st" by (simp add: lb_before_def vacated_def)
      from p True have a: "cores s1 = (cores st)[?cur := (cores st ! ?cur)
           \<lparr>queue := (if outranks st self t (queue (cores st ! ?cur))
                       then behind_front t (queue (cores st ! ?cur))
                       else placed st t (queue (cores st ! ?cur)))\<rparr>]"
        by (elim conjE) (erule mp)
      from p have b: "\<not> outranks st self t (queue (cores st ! ?cur)) \<Longrightarrow> all_sorted s1"
        by (elim conjE) simp
      show ?thesis unfolding d cs srt lb
      proof (intro conjI impI)
        show "cores s1 = (cores st)[?cur := (cores st ! ?cur)
           \<lparr>queue := (if outranks st self t (queue (cores st ! ?cur))
                       then behind_front t (queue (cores st ! ?cur))
                       else placed st t (queue (cores st ! ?cur)))\<rparr>]" by (rule a)
      next
        assume "\<not> alwaysInsert \<and> c = ?cur"
        with True show "cores s1 = cores st" by simp
      next
        assume "\<not> (alwaysInsert \<and> outranks st self t (queue (cores st ! ?cur)))"
        with True have "\<not> outranks st self t (queue (cores st ! ?cur))" by simp
        then show "all_sorted s1" by (rule b)
      qed
    next
      case False
      from p False have a: "cores s1 = cores st" and b: "all_sorted s1"
        by (elim conjE, simp)+
      show ?thesis unfolding cs srt
      proof (intro conjI impI)
        assume "alwaysInsert \<or> c \<noteq> ?cur"
        with False c show "cores s1 = (lb_before alwaysInsert t st)[coreId (threads st' t) :=
             (lb_before alwaysInsert t st ! coreId (threads st' t))
             \<lparr>queue :=
                (if outranks st self t
                      (queue (lb_before alwaysInsert t st ! coreId (threads st' t)))
                 then behind_front t
                        (queue (lb_before alwaysInsert t st ! coreId (threads st' t)))
                 else placed st t
                        (queue (lb_before alwaysInsert t st ! coreId (threads st' t))))\<rparr>]"
          by simp
      next
        show "cores s1 = cores st" by (rule a)
      next
        show "all_sorted s1" by (rule b)
      qed
    qed
  qed
  show ?thesis
  proof (cases "queue (cores st ! ?cur) \<noteq> [] \<and> count (affinityMask (threads st t)) \<noteq> 1")
    case False
    from r have "(case insert_if alwaysInsert self t st of
           Inl e \<Rightarrow> Inl e
         | Inr s1 \<Rightarrow> Inr (emit (Debug_early t (id_core (cores s1 ! ?cur))) s1, ?cur))
        = Inr (st', c)"
      unfolding LoadBalance_def Let_def if_not_P [OF False] using cur by simp
    from sum_case_InrD [OF this] obtain s1 where "insert_if alwaysInsert self t st = Inr s1"
      "st' = emit (Debug_early t (id_core (cores s1 ! ?cur))) s1" "c = ?cur"
      by blast
    then show ?thesis by (rule stay)
  next
    case True
    show ?thesis
    proof (cases "map_option fst ?opt \<noteq> Some ?cur")
      case False
      from r have "(case insert_if alwaysInsert self t st of
           Inl e \<Rightarrow> Inl e
         | Inr s1 \<Rightarrow> Inr (emit (Debug_late t (id_core (cores s1 ! ?cur))) s1, ?cur))
        = Inr (st', c)"
        unfolding LoadBalance_def Let_def if_P [OF True] if_not_P [OF False] using cur by simp
      from sum_case_InrD [OF this] obtain s1 where "insert_if alwaysInsert self t st = Inr s1"
        "st' = emit (Debug_late t (id_core (cores s1 ! ?cur))) s1" "c = ?cur"
        by blast
      then show ?thesis by (rule stay)
    next
      case mv: True
      with r cur True have m: "migrate self t alwaysInsert now ?cur ?opt st = Inr (st', c)"
        by (simp add: LoadBalance_def Let_def)
      note p = migrate_place [OF s m]
      with mv have "c \<noteq> ?cur" by auto
      with p show ?thesis by simp
    qed
  qed
qed

lemma ParkThread_place:
  assumes s: "all_sorted st"
      and env: "\<forall>other\<in>set others. \<forall>s. all_sorted s \<longrightarrow> all_sorted (other s)"
      and r: "ParkThread self ParkedCoreId now others st = Inr (Some st')"
  shows "all_sorted st'
       \<and> (\<exists>sb. all_sorted sb
             \<and> cores st' = (cores sb)[coreId (threads st' self) :=
                  (cores sb ! coreId (threads st' self))
                  \<lparr>queue := placed sb self (queue (cores sb ! coreId (threads st' self)))\<rparr>]
             \<and> (others = [] \<longrightarrow> cores sb = vacated self st \<and> prio sb = prio st))"
proof -
  from r obtain s1 where rem: "RemoveThread self now st = Inr s1"
    by (auto simp: ParkThread_def split: sum.splits)
  from RemoveThread_order [OF s rem]
  have a1: "all_sorted s1" and c1: "cores s1 = vacated self st" and p1: "prio s1 = prio st"
    by (simp_all add: lb_before_def vacated_def)
  let ?s3 = "park_target self ParkedCoreId s1"
  from a1 all_sorted_cong [of ?s3 s1] have a3: "all_sorted ?s3" by simp
  have a4: "all_sorted (park_enqueue self ?s3)"
    using a3 all_sorted_cong [of "park_enqueue self ?s3" ?s3] by (simp add: park_enqueue_def)
  have ins: "all_sorted st'
       \<and> cores st' = (cores sb)[coreId (threads st' self) :=
                  (cores sb ! coreId (threads st' self))
                  \<lparr>queue := placed sb self (queue (cores sb ! coreId (threads st' self)))\<rparr>]"
    if a: "all_sorted sb" and i: "InsertThread self self sb = Inr st'" for sb
    using InsertThread_place [OF a i] by (simp add: outranks_def)
  show ?thesis
  proof (cases "coreId (threads ?s3 self) = ParkedCoreId")
    case False
    with r rem have "InsertThread self self ?s3 = Inr st'"
      by (auto simp: ParkThread_def Let_def split: sum.splits)
    from ins [OF a3 this] a3 c1 p1 show ?thesis by (intro conjI exI [of _ ?s3]) simp_all
  next
    case True
    with r rem obtain s5 where
      w: "wait_cond (parked_ready self ParkedCoreId) others (park_enqueue self ?s3) = Some s5"
      and i: "InsertThread self self s5 = Inr st'"
      by (auto simp: ParkThread_def Let_def split: sum.splits option.splits)
    from wait_cond_sorted [OF env a4 w] have a5: "all_sorted s5" .
    have "others \<noteq> []"
    proof
      assume "others = []"
      with w have "parked_ready self ParkedCoreId (park_enqueue self ?s3)"
        by (simp split: if_splits)
      with True show False by (simp add: parked_ready_def park_enqueue_def)
    qed
    with ins [OF a5 i] a5 show ?thesis by (intro conjI exI [of _ s5]) simp_all
  qed
qed

lemma UpdatePriority_sorted:
  assumes s: "all_sorted st" and u: "UpdatePriority thread st = Inr st'"
  shows "all_sorted st'"
proof -
  let ?c = "coreId (threads st thread)"
  let ?q = "queue (cores st ! ?c)"
  have c: "?c < length (cores st)"
    using u by (auto simp: UpdatePriority_def Let_def split: if_splits)
  from s c have sq: "sorted (map (prio st) ?q)" by (simp add: all_sorted_def queue_sorted_def)
  show ?thesis
  proof (cases "thread \<in> set ?q \<and> hd ?q \<noteq> thread")
    case False
    then have "find_iter ?q thread = length ?q \<or> find_iter ?q thread = 0"
      using find_iter_absent [of thread ?q] by (cases ?q) auto
    with u c have "st' = st" by (auto simp: UpdatePriority_def Let_def)
    with s show ?thesis by simp
  next
    case True
    then have inq: "thread \<in> set ?q" and nh: "hd ?q \<noteq> thread" by simp_all
    have s1: "sorted (map (prio st) (remove1 thread ?q))" by (rule sorted_map_remove1 [OF sq])
    have o: "\<forall>d < length (cores st). d \<noteq> ?c \<longrightarrow> queue_sorted st d"
      using s by (simp add: all_sorted_def)
    obtain x xs where q: "?q = x # xs" using inq by (cases ?q) auto
    with inq nh have "thread \<in> set xs" by auto
    with sq q have "prio st (hd ?q) \<le> prio st thread" by auto
    then have "\<not> prio st thread < prio st (hd ?q)" by simp
    with UpdatePriority_order [OF c inq nh s1 o] u show ?thesis by auto
  qed
qed

lemma fifo_band_sorted: "all_sorted fifo_band"
  by (auto simp: all_sorted_def queue_sorted_def sample_defs prio_def nth_Cons split: nat.splits)

lemma fifo_band_runs:
  "\<exists>st'. Rotate 5 True 8 fifo_band = Inr st'"
  "\<exists>st'. UpdatePriority 7 fifo_band = Inr st'"
proof -
  show "\<exists>st'. Rotate 5 True 8 fifo_band = Inr st'"
    by (simp add: Rotate_def sample_defs Let_def)
  show "\<exists>st'. UpdatePriority 7 fifo_band = Inr st'"
    by (simp add: UpdatePriority_def sample_defs Let_def search_defs)
qed

lemma fifo_band_select:
  "select_core fifo_band 6 (\<lambda>i. 0) 0 [0 ..< length (cores fifo_band)] None = Some (1, 0)"
proof -
  have l: "[0 ..< length (cores fifo_band)] = [0, 1, 2, 3]"
    by (simp add: sample_defs upt_rec)
  have p: "projected_wait fifo_band 6 0 (cores fifo_band ! 0) = 3"
     "projected_wait fifo_band 6 0 (cores fifo_band ! Suc 0) = 0"
     "projected_wait fifo_band 6 0 (cores fifo_band ! 2) = 0"
     "projected_wait fifo_band 6 0 (cores fifo_band ! 3) = 0"
    by (simp_all add: projected_wait_def running_share_def resident_share_def sample_defs prio_def)
  have t: "test (affinityMask (threads fifo_band 6)) (id_core (cores fifo_band ! 0))"
     "test (affinityMask (threads fifo_band 6)) (id_core (cores fifo_band ! Suc 0))"
     "test (affinityMask (threads fifo_band 6)) (id_core (cores fifo_band ! 2))"
     "test (affinityMask (threads fifo_band 6)) (id_core (cores fifo_band ! 3))"
    by (simp_all add: test_def sample_defs)
  show ?thesis unfolding l by (simp add: consider_core_def Let_def p t)
qed

lemma pinned_sorted: "all_sorted pinned"
  by (auto simp: all_sorted_def queue_sorted_def sample_defs prio_def nth_Cons
      split: nat.splits)

lemma pinned_balance:
  assumes "t = 8 \<or> t = 9"
  shows "\<exists>st'. LoadBalance 4 t True 8 (\<lambda>i. 0) pinned = Inr (st', 0) \<and> coreId (threads st' t) = 0"
proof -
  from assms have c: "coreId (threads pinned t) = 0" "length (cores pinned) = 4"
     "count (affinityMask (threads pinned t)) = 1"
    by (auto simp: sample_defs count_def)
  have r: "coreId (threads pinned t) < length (cores pinned)" by (simp add: c)
  from InsertThread_effect [OF r, of 4] obtain s1 where
    "InsertThread 4 t pinned = Inr s1" "coreId (threads s1 t) = 0"
    using c by auto
  with c show ?thesis by (simp add: LoadBalance_def insert_if_def Let_def)
qed

lemma fifo_band_moves:
  "\<exists>st'. LoadBalance 6 6 False 8 (\<lambda>i. 0) fifo_band = Inr (st', 1) \<and> coreId (threads st' 6) = 1"
proof -
  have c: "coreId (threads fifo_band 6) = 0" "length (cores fifo_band) = 4"
     "queue (cores fifo_band ! 0) \<noteq> []" "count (affinityMask (threads fifo_band 6)) \<noteq> 1"
    by (simp_all add: sample_defs count_def)
  have r: "coreId (threads fifo_band 6) < length (cores fifo_band)" by (simp add: c)
  from RemoveThread_effect [OF r, of 8] obtain s1 where
    rem: "RemoveThread 6 8 fifo_band = Inr s1" and l1: "length (cores s1) = 4"
    using c by auto
  let ?s2 = "upd_thread 6 (\<lambda>k. k\<lparr>coreId := id_core (cores s1 ! 1)\<rparr>) s1"
  from RemoveThread_effect [OF r, of 8] rem have i1: "id_core (cores s1 ! 1) = 1"
    by (auto simp: sample_defs)
  then have "coreId (threads ?s2 6) < length (cores ?s2)" using l1 by simp
  from InsertThread_effect [OF this, of 6] obtain s3 where
    "InsertThread 6 6 ?s2 = Inr s3" "coreId (threads s3 6) = coreId (threads ?s2 6)" by blast
  with rem fifo_band_select c i1 show ?thesis
    by (simp add: LoadBalance_def migrate_def leave_core_def Let_def)
qed

lemma fifo_band_parks:
  "\<exists>st'. ParkThread 7 4 8 [] fifo_band = Inr (Some st') \<and> coreId (threads st' 7) = 3"
  by (simp add: ParkThread_def RemoveThread_def erase_self_def park_target_def
      clear_preemption_def InsertThread_def park_scan_def Let_def test_def
      erase_at_def insert_at_def search_defs sample_defs)

lemma one_running_sorted: "all_sorted one_running"
  by (auto simp: all_sorted_def queue_sorted_def sample_defs prio_def nth_Cons split: nat.splits)

lemma four_cores_queue:
  "queue (four_cores q0 q1 q2 q3 ! 0) = q0" "queue (four_cores q0 q1 q2 q3 ! Suc 0) = q1"
  "queue (four_cores q0 q1 q2 q3 ! 3) = q3" "length (four_cores q0 q1 q2 q3) = 4"
  by (simp_all add: four_cores_def)

lemma four_cores_update:
  "(four_cores q0 q1 q2 q3)[0 := (four_cores q0 q1 q2 q3 ! 0)\<lparr>queue := q\<rparr>]
     = four_cores q q1 q2 q3"
  "(four_cores q0 q1 q2 q3)[Suc 0 := (four_cores q0 q1 q2 q3 ! Suc 0)\<lparr>queue := q\<rparr>]
     = four_cores q0 q q2 q3"
  "(four_cores q0 q1 q2 q3)[3 := (four_cores q0 q1 q2 q3 ! 3)\<lparr>queue := q\<rparr>]
     = four_cores q0 q1 q2 q"
  by (simp_all add: four_cores_def)

lemma sample_cores:
  "cores fifo_band = four_cores [5, 6, 7] [] [] []" "cores pinned = four_cores [5, 6, 7] [] [] []"
  "cores raised = four_cores [5, 6, 7] [] [] []"
  "coreId (threads fifo_band u) = 0" "coreId (threads pinned u) = 0"
  "coreId (threads raised u) = 0"
  by (simp_all add: fifo_band_def pinned_def raised_def sched_def thread_at_def)

lemma sample_placed:
  "placed fifo_band 8 [5, 6, 7] = [5, 6, 7, 8]" "placed fifo_band 5 [6, 7] = [6, 7, 5]"
  "placed fifo_band 6 [] = [6]" "placed fifo_band 7 [] = [7]"
  "placed pinned 8 [5, 6, 7] = [5, 6, 7, 8]"
  by (simp_all add: placed_def fifo_band_def pinned_def sched_def thread_at_def prio_def)

lemma sample_outranks:
  "\<not> dethrones 9 8 fifo_band" "\<not> outranks fifo_band 6 6 q"
  "\<not> outranks pinned 4 8 [5, 6, 7]" "outranks pinned 4 9 [5, 6, 7]"
  "prio raised 7 < prio raised 5"
  by (simp_all add: dethrones_def outranks_def fifo_band_def pinned_def raised_def sched_def
      four_cores_def thread_at_def prio_def)

subsection \<open>Rotate, UpdatePriority and WakeParkedThread on every input\<close>

text \<open>The average \<open>Rotate\<close> stores whenever it returns; \<open>UpdatePriority\<close> on the front of a
  queue; \<open>WakeParkedThread\<close> with at most one thread on the caller's core, and with more.\<close>

lemma Rotate_average:
  assumes "Rotate self cooperative now st = Inr st'"
  shows "averageTimeslice (threads st' self)
         = averageTimeslice (threads st self) div 4
           + 3 * (now - timesliceStart (threads st self) div 4)"
  using assms
  by (auto simp: Rotate_def Let_def account_yield_def timeslice_average_def split: if_splits)

lemma UpdatePriority_front:
  assumes "coreId (threads st thread) < length (cores st)"
      and "find_iter (queue (cores st ! coreId (threads st thread))) thread = 0"
  shows "UpdatePriority thread st = Inr st"
  using assms by (simp add: UpdatePriority_def Let_def)

lemma WakeParkedThread_alone:
  assumes "parkedQueue st \<noteq> []" and "coreId (threads st self) < length (cores st)"
      and "length (queue (cores st ! coreId (threads st self))) \<le> 1"
  shows "WakeParkedThread self st = Inl (NullDereference, st)"
  using assms by (simp add: WakeParkedThread_def Let_def)

lemma WakeParkedThread_claims:
  assumes "parkedQueue st \<noteq> []" and "coreId (threads st self) < length (cores st)"
      and "1 < length (queue (cores st ! coreId (threads st self)))"
      and "prio st (hd (parkedQueue st)) < prio st self
           \<or> (prio st (hd (parkedQueue st)) = prio st self
               \<and> (prio st (queue (cores st ! coreId (threads st self)) ! 1) \<noteq> prio st self
                   \<or> timesliceStart (threads st (hd (parkedQueue st)))
                       < timesliceStart
                           (threads st (queue (cores st ! coreId (threads st self)) ! 1))))"
  shows "WakeParkedThread self st =
         Inr (emit (notify_one self)
                (upd_thread (hd (parkedQueue st))
                   (\<lambda>k. k\<lparr>coreId := coreId (threads st self)\<rparr>) st))"
  using assms by (auto simp: WakeParkedThread_def Let_def)

section \<open>The claims\<close>

subsection \<open>C10: RemoveThread by a thread that is not in its core's queue\<close>

text \<open>
  C10. When the calling thread is not in the queue of its current core, \<open>RemoveThread\<close>
  returns, leaves every core queue and the parked queue as they were and notifies no
  wake condition: the only event it may add to the trace is the disarming of the
  caller's preemption timer, added exactly when \<open>isPreempted\<close> was set. It clears
  \<open>isPreempted\<close> (no other field of any thread changes) and clears \<open>YieldPending\<close>.
\<close>

theorem RemoveThread_absent:
  assumes "coreId (threads st self) < length (cores st)"
      and "self \<notin> set (queue (cores st ! coreId (threads st self)))"
  shows "\<exists>st'. RemoveThread self now st = Inr st'
     \<and> cores st' = cores st \<and> parkedQueue st' = parkedQueue st
     \<and> trace st' = trace st @ (if isPreempted (threads st self) then [timer_disarm self] else [])
     \<and> threads st' = (threads st)(self := (threads st self)\<lparr>isPreempted := False\<rparr>)
     \<and> \<not> isPreempted (threads st' self) \<and> \<not> YieldPending st' self"
proof -
  have s1: "erase_self self now st = st"
    using assms(2) by (simp add: erase_self_def Let_def find_iter_absent)
  show ?thesis
    unfolding RemoveThread_stages [OF assms(1)] s1
    by (simp add: clear_preemption_def Let_def isPreempted_clear_idem)
qed

theorem RemoveThread_absent_witness:
  "coreId (threads one_running 2) < length (cores one_running)
   \<and> 2 \<notin> set (queue (cores one_running ! coreId (threads one_running 2)))
   \<and> isPreempted (threads one_running 2)
   \<and> (\<exists>st'. RemoveThread 2 7 one_running = Inr st'
        \<and> cores st' = cores one_running \<and> parkedQueue st' = parkedQueue one_running
        \<and> trace st' = trace one_running @ [timer_disarm 2]
        \<and> \<not> isPreempted (threads st' 2) \<and> \<not> YieldPending st' 2)"
proof -
  have h1: "coreId (threads one_running 2) < length (cores one_running)"
    by (simp add: sample_defs)
  have h2: "2 \<notin> set (queue (cores one_running ! coreId (threads one_running 2)))"
    by (simp add: sample_defs)
  have h3: "isPreempted (threads one_running 2)"
    by (simp add: sample_defs)
  from RemoveThread_absent [OF h1 h2, of 7] h1 h2 h3 show ?thesis by auto
qed

subsection \<open>C8: InsertThread followed by RemoveThread\<close>

text \<open>
  C8. For a thread \<open>t\<close> that is not in the queue of its core (in particular, one that is
  in no queue at all), \<open>InsertThread(t)\<close>, by whichever caller, followed by
  \<open>RemoveThread\<close> called by \<open>t\<close> both return and leave all core queues and the parked
  queue identical to the state before.
\<close>

theorem Insert_Remove_roundtrip:
  assumes c: "coreId (threads st t) < length (cores st)"
      and absent: "t \<notin> set (queue (cores st ! coreId (threads st t)))"
  shows "\<exists>st1 st2. InsertThread caller t st = Inr st1 \<and> RemoveThread t now st1 = Inr st2
           \<and> cores st2 = cores st \<and> parkedQueue st2 = parkedQueue st"
proof -
  let ?c = "coreId (threads st t)"
  let ?q = "queue (cores st ! ?c)"
  from InsertThread_effect [OF c, of caller] obtain st1 where
    ins: "InsertThread caller t st = Inr st1"
    and cs1: "cores st1 = (cores st)[?c := (cores st ! ?c)\<lparr>queue := insert_at (insert_pos caller t st) t ?q\<rparr>]"
    and pq1: "parkedQueue st1 = parkedQueue st"
    and cid1: "\<forall>u. coreId (threads st1 u) = coreId (threads st u)"
    by blast
  have c1: "coreId (threads st1 t) < length (cores st1)" using c cid1 cs1 by simp
  have q1: "queue (cores st1 ! coreId (threads st1 t)) = insert_at (insert_pos caller t st) t ?q"
    using c cid1 cs1 by simp
  from RemoveThread_effect [OF c1, of now] obtain st2 where
    rem: "RemoveThread t now st1 = Inr st2"
    and cs2: "cores st2 = (cores st1)[coreId (threads st1 t) :=
            (cores st1 ! coreId (threads st1 t))\<lparr>queue :=
               remove1 t (queue (cores st1 ! coreId (threads st1 t)))\<rparr>]"
    and pq2: "parkedQueue st2 = parkedQueue st1"
    by blast
  have "remove1 t (insert_at (insert_pos caller t st) t ?q) = ?q"
    using absent by (rule remove1_insert_at)
  with cs2 q1 cs1 cid1 c have "cores st2 = cores st"
    by (simp add: list_update_same_conv)
  with ins rem pq1 pq2 show ?thesis by simp
qed

theorem Insert_Remove_roundtrip_witness:
  "coreId (threads one_running 2) < length (cores one_running)
   \<and> 2 \<notin> set (queue (cores one_running ! coreId (threads one_running 2)))
   \<and> (\<exists>st1 st2. InsertThread 2 2 one_running = Inr st1 \<and> RemoveThread 2 7 st1 = Inr st2
           \<and> queue (cores st1 ! 0) = [2, 1]
           \<and> cores st2 = cores one_running \<and> parkedQueue st2 = parkedQueue one_running)"
proof -
  have h1: "coreId (threads one_running 2) < length (cores one_running)"
    by (simp add: sample_defs)
  have h2: "2 \<notin> set (queue (cores one_running ! coreId (threads one_running 2)))"
    by (simp add: sample_defs)
  have q: "\<And>st1. InsertThread 2 2 one_running = Inr st1 \<Longrightarrow> queue (cores st1 ! 0) = [2, 1]"
    by (auto simp add: InsertThread_def sample_defs Let_def upper_bound_def IsHigherPriority_def
        prio_def bound_search.simps splice_front_def)
  from Insert_Remove_roundtrip [OF h1 h2, of 2 7] h1 h2 q show ?thesis by blast
qed

subsection \<open>C9: a timed wait that runs out\<close>

text \<open>
  C9. When the caller has not become the front of its core's queue by the time the
  bounded wait ends, \<open>TimedWaitSchedule\<close> returns \<open>false\<close> and has itself changed nothing:
  the scheduler is exactly what the other threads made of it meanwhile (unchanged when
  they did nothing). So the caller's \<open>isPreempted\<close> and \<open>timesliceStart\<close> and the core's
  queue are not written, no timer is armed, and no load balancing takes place (no
  debug line of \<open>LoadBalance\<close> enters the trace).
\<close>

theorem TimedWaitSchedule_timeout:
  assumes c: "coreId (threads st self) < length (cores st)"
      and timeout: "\<not> fst (wait_for (at_front (coreId (threads st self)) self) others st)"
  shows "TimedWaitSchedule self now others st = Inr (foldl (\<lambda>s other. other s) st others, False)"
proof -
  obtain s1 where w: "wait_for (at_front (coreId (threads st self)) self) others st = (False, s1)"
    using timeout by (cases "wait_for (at_front (coreId (threads st self)) self) others st") auto
  from wait_for_False [OF w] w c show ?thesis
    by (simp add: TimedWaitSchedule_def Let_def)
qed

theorem TimedWaitSchedule_timeout_witness:
  "coreId (threads one_running 2) < length (cores one_running)
   \<and> \<not> fst (wait_for (at_front (coreId (threads one_running 2)) 2) [emit (SendSignal 1)] one_running)
   \<and> TimedWaitSchedule 2 9 [emit (SendSignal 1)] one_running
        = Inr (emit (SendSignal 1) one_running, False)
   \<and> TimedWaitSchedule 2 9 [] one_running = Inr (one_running, False)"
proof -
  have c: "coreId (threads one_running 2) < length (cores one_running)"
    by (simp add: sample_defs)
  have t1: "\<not> fst (wait_for (at_front (coreId (threads one_running 2)) 2) [emit (SendSignal 1)] one_running)"
    by (simp add: sample_defs at_front_def)
  have t2: "\<not> fst (wait_for (at_front (coreId (threads one_running 2)) 2) [] one_running)"
    by (simp add: sample_defs at_front_def)
  from TimedWaitSchedule_timeout [OF c t1, of 9] TimedWaitSchedule_timeout [OF c t2, of 9] c t1
  show ?thesis by simp
qed

subsection \<open>C7: the core LoadBalance chooses\<close>

text \<open>
  C7. For a thread admitted on more than one core whose current core's queue is not
  empty (core ids being the positions in \<open>cores\<close> and the mask having one bit per
  core), the loop of \<open>LoadBalance\<close> ends with a core that is admitted by the affinity
  mask and whose projected wait is least among the admitted cores, and that is the core
  \<open>LoadBalance\<close> returns. Whenever the thread's current core attains the least
  projected wait, also on a tie with other cores, the current core is chosen and no
  migration takes place: the call returns the current core, \<open>coreId\<close> is unchanged, the
  thread is not removed, and the queues change only by the insertion that
  \<open>alwaysInsert\<close> asks for.
\<close>

theorem LoadBalance_choice:
  assumes cur: "coreId (threads st thread) < length (cores st)"
      and nonempty: "queue (cores st ! coreId (threads st thread)) \<noteq> []"
      and multi: "1 < count (affinityMask (threads st thread))"
      and ids: "\<forall>i < length (cores st). id_core (cores st ! i) = i"
      and mask: "length (affinityMask (threads st thread)) = length (cores st)"
  shows "\<exists>opt. map_option fst (select_core st thread nowAt (coreId (threads st thread))
                    [0 ..< length (cores st)] None) = Some opt
      \<and> minimal_at st thread nowAt opt
      \<and> (\<forall>st' c. LoadBalance self thread alwaysInsert now nowAt st = Inr (st', c) \<longrightarrow> c = opt)
      \<and> (minimal_at st thread nowAt (coreId (threads st thread)) \<longrightarrow>
           opt = coreId (threads st thread)
           \<and> (\<exists>st'. LoadBalance self thread alwaysInsert now nowAt st
                       = Inr (st', coreId (threads st thread))
                 \<and> coreId (threads st' thread) = coreId (threads st thread)
                 \<and> parkedQueue st' = parkedQueue st
                 \<and> (\<not> alwaysInsert \<longrightarrow> cores st' = cores st)
                 \<and> trace st' = trace (case insert_if alwaysInsert self thread st of
                                          Inr s \<Rightarrow> s | Inl e \<Rightarrow> st)
                               @ [Debug_late thread (coreId (threads st thread))]))"
proof -
  let ?cur = "coreId (threads st thread)"
  from select_core_minimal [OF ids mask multi, of nowAt ?cur] obtain opt m where
    sel: "select_core st thread nowAt ?cur [0 ..< length (cores st)] None = Some (opt, m)"
    and min: "minimal_at st thread nowAt opt"
    and tie: "minimal_at st thread nowAt ?cur \<longrightarrow> opt = ?cur"
    by blast
  have branch: "queue (cores st ! ?cur) \<noteq> [] \<and> count (affinityMask (threads st thread)) \<noteq> 1"
    using nonempty multi by simp
  have ret: "\<forall>st' c. LoadBalance self thread alwaysInsert now nowAt st = Inr (st', c) \<longrightarrow> c = opt"
  proof (intro allI impI)
    fix st' c assume r: "LoadBalance self thread alwaysInsert now nowAt st = Inr (st', c)"
    show "c = opt"
    proof (cases "opt = ?cur")
      case True
      with r cur branch sel show ?thesis
        by (auto simp: LoadBalance_def Let_def split: sum.splits)
    next
      case False
      with r cur branch sel show ?thesis
        by (auto simp: LoadBalance_def migrate_def Let_def split: sum.splits if_splits)
    qed
  qed
  have stay: "\<exists>st'. LoadBalance self thread alwaysInsert now nowAt st = Inr (st', ?cur)
                 \<and> coreId (threads st' thread) = ?cur
                 \<and> parkedQueue st' = parkedQueue st
                 \<and> (\<not> alwaysInsert \<longrightarrow> cores st' = cores st)
                 \<and> trace st' = trace (case insert_if alwaysInsert self thread st of
                                          Inr s \<Rightarrow> s | Inl e \<Rightarrow> st)
                               @ [Debug_late thread ?cur]"
    if o: "opt = ?cur"
  proof -
    have lb: "LoadBalance self thread alwaysInsert now nowAt st =
        (case insert_if alwaysInsert self thread st of
              Inl e \<Rightarrow> Inl e
            | Inr s1 \<Rightarrow> Inr (emit (Debug_late thread (id_core (cores s1 ! ?cur))) s1, ?cur))"
      using cur branch sel o by (simp add: LoadBalance_def Let_def)
    show ?thesis
    proof (cases alwaysInsert)
      case False
      then have "insert_if alwaysInsert self thread st = Inr st" by (simp add: insert_if_def)
      with lb ids cur False show ?thesis by simp
    next
      case True
      from InsertThread_effect [OF cur, of self] obtain s1 where
        i: "InsertThread self thread st = Inr s1"
        and cs: "cores s1 = (cores st)[?cur := (cores st ! ?cur)\<lparr>queue :=
               insert_at (insert_pos self thread st) thread (queue (cores st ! ?cur))\<rparr>]"
        and pq: "parkedQueue s1 = parkedQueue st"
        and cid: "\<forall>u. coreId (threads s1 u) = coreId (threads st u)"
        by blast
      from i True have ii: "insert_if alwaysInsert self thread st = Inr s1"
        by (simp add: insert_if_def)
      have "id_core (cores s1 ! ?cur) = ?cur" using cs ids cur by simp
      with lb ii pq cid True show ?thesis by simp
    qed
  qed
  from sel min ret tie stay show ?thesis by auto
qed

theorem LoadBalance_choice_witness:
  "coreId (threads balanced 1) < length (cores balanced)
   \<and> queue (cores balanced ! coreId (threads balanced 1)) \<noteq> []
   \<and> 1 < count (affinityMask (threads balanced 1))
   \<and> projection balanced 1 (\<lambda>i. 100) 0 = 2 \<and> projection balanced 1 (\<lambda>i. 100) 1 = 2
   \<and> (\<exists>st'. LoadBalance 1 1 False 7 (\<lambda>i. 100) balanced = Inr (st', 0)
         \<and> coreId (threads st' 1) = 0 \<and> cores st' = cores balanced)"
proof -
  have cur0: "coreId (threads balanced 1) = 0" by (simp add: sample_defs)
  have h1: "coreId (threads balanced 1) < length (cores balanced)"
    by (simp add: sample_defs)
  have h2: "queue (cores balanced ! coreId (threads balanced 1)) \<noteq> []"
    by (simp add: sample_defs)
  have h3: "1 < count (affinityMask (threads balanced 1))"
    by (simp add: sample_defs count_def)
  have h4: "\<forall>i < length (cores balanced). id_core (cores balanced ! i) = i"
    by (auto simp: sample_defs nth_Cons split: nat.splits)
  have h5: "length (affinityMask (threads balanced 1)) = length (cores balanced)"
    by (simp add: sample_defs)
  have m: "minimal_at balanced 1 (\<lambda>i. 100) (coreId (threads balanced 1))"
    unfolding cur0 minimal_at_def using balanced_projection
    by (auto simp: balanced_admitted simp del: One_nat_def)
  from LoadBalance_choice [OF h1 h2 h3 h4 h5, of "\<lambda>i. 100" 1 False 7] m
  have "\<exists>st'. LoadBalance 1 1 False 7 (\<lambda>i. 100) balanced = Inr (st', coreId (threads balanced 1))
         \<and> coreId (threads st' 1) = coreId (threads balanced 1) \<and> cores st' = cores balanced"
    by auto
  with h1 h2 h3 balanced_projection show ?thesis unfolding cur0 by simp
qed

subsection \<open>C6: Rotate and the forceYield flag\<close>

text \<open>
  C6, as amended. A call to \<open>Rotate\<close> returns exactly when the caller's core exists,
  its queue is not empty and the caller is the front of the queue, or carries
  \<open>forceYield\<close> and is found in its priority band; the caller's \<open>forceYield\<close> is then
  cleared. Every other call fails (with \<open>InvalidSchedulerState\<close> when the core exists
  and its queue is not empty) and leaves the scheduler as it was, the caller's
  \<open>forceYield\<close> included: the assignment that clears the flag is not reached by the
  paths that throw.
\<close>

theorem Rotate_forceYield:
  "if coreId (threads st self) < length (cores st)
      \<and> queue (cores st ! coreId (threads st self)) \<noteq> []
      \<and> (hd (queue (cores st ! coreId (threads st self))) = self
          \<or> (forceYield (threads st self)
              \<and> in_band st (queue (cores st ! coreId (threads st self))) self))
   then \<exists>st'. Rotate self cooperative now st = Inr st' \<and> \<not> forceYield (threads st' self)
   else Rotate self cooperative now st =
          Inl (if \<not> coreId (threads st self) < length (cores st) then OutOfRange
               else if queue (cores st ! coreId (threads st self)) = [] then EmptyFront
               else InvalidSchedulerState, st)"
  by (simp add: Rotate_def Let_def)

theorem Rotate_forceYield_witness:
  "(\<exists>st'. Rotate 1 True 8 yielding = Inr st' \<and> \<not> forceYield (threads st' 1))
   \<and> Rotate 2 True 8 yielding = Inl (InvalidSchedulerState, yielding)"
proof -
  have c: "coreId (threads yielding 1) < length (cores yielding)"
          "coreId (threads yielding 2) < length (cores yielding)"
    by (simp_all add: sample_defs)
  have q: "queue (cores yielding ! coreId (threads yielding 1)) \<noteq> []"
          "queue (cores yielding ! coreId (threads yielding 2)) \<noteq> []"
    by (simp_all add: sample_defs)
  have h1: "hd (queue (cores yielding ! coreId (threads yielding 1))) = 1"
    by (simp add: sample_defs)
  have h2: "hd (queue (cores yielding ! coreId (threads yielding 2))) \<noteq> 2"
       "\<not> forceYield (threads yielding 2)"
    by (simp_all add: sample_defs)
  from Rotate_forceYield [of yielding 1 True 8] c(1) q(1) h1
  have a: "\<exists>st'. Rotate 1 True 8 yielding = Inr st' \<and> \<not> forceYield (threads st' 1)"
    by simp
  from Rotate_forceYield [of yielding 2 True 8] c(2) q(2) h2
  have b: "Rotate 2 True 8 yielding = Inl (InvalidSchedulerState, yielding)"
    by simp
  from a b show ?thesis by blast
qed

text \<open>
  C6 as stated fails: thread 2 carries \<open>forceYield\<close> and is in no queue; its call to
  \<open>Rotate\<close> fails with \<open>InvalidSchedulerState\<close> and the flag is still set.
\<close>

theorem Rotate_forced_absent:
  "forceYield (threads forced_absent 2)
   \<and> Rotate 2 False 0 forced_absent = Inl (InvalidSchedulerState, forced_absent)"
  by (simp add: Rotate_def sample_defs Let_def in_band_def search_defs)

subsection \<open>C1: the moving average of the timeslice\<close>

text \<open>
  C1 does not hold of the code. With an average of 0, a timeslice started at tick 4 and
  ended at tick 8 (a sample of 4 ticks) the claimed value is \<open>0/4 + 3 * 4/4 = 3\<close>,
  within \<open>[0, 4]\<close>. \<open>Rotate\<close> stores \<open>0/4 + 3 * (8 - 4/4) = 21\<close>: the source divides
  \<open>timesliceStart\<close> alone by 4, against its own comment (0.25 of the old duration plus
  0.75 of the current one). Lemma \<open>Rotate_average\<close> gives the value stored by every call
  that returns.
\<close>

theorem Rotate_average_at_head:
  "\<exists>s. Rotate 1 True 8 yielding = Inr s
       \<and> averageTimeslice (threads yielding 1) = 0
       \<and> 8 - timesliceStart (threads yielding 1) = 4
       \<and> averageTimeslice (threads s 1) = 21
       \<and> \<not> averageTimeslice (threads s 1)
             \<le> max (averageTimeslice (threads yielding 1)) (8 - timesliceStart (threads yielding 1))"
  by (simp add: Rotate_def sample_defs Let_def search_defs splice_front_def
      account_yield_def timeslice_average_def)

subsection \<open>C5: UpdatePriority on the front of the queue\<close>

text \<open>
  C5 does not hold of the code. Thread 1 is the front of its queue and the thread behind
  it has strictly higher priority, so \<open>YieldSignal\<close> is due to thread 1.
  \<open>UpdatePriority\<close> returns without any effect: the first test returns for a thread at
  \<open>begin()\<close> as well as for one at \<open>end()\<close>, and the branch for the front is never
  reached (lemma \<open>UpdatePriority_front\<close>, for every thread at the front).
\<close>

theorem UpdatePriority_at_head:
  "find_iter (queue (cores head_lowered ! 0)) 1 = 0
   \<and> prio head_lowered (queue (cores head_lowered ! 0) ! 1) < prio head_lowered 1
   \<and> UpdatePriority 1 head_lowered = Inr head_lowered
   \<and> trace head_lowered = []"
  by (simp add: UpdatePriority_def sample_defs Let_def prio_def)

subsection \<open>C3: WakeParkedThread with at most one thread on the caller's core\<close>

text \<open>
  C3 does not hold of the code. The parked front has strictly higher priority than the
  caller, whose core holds the caller alone. \<open>nextThread\<close> is then a null handle, and
  \<open>nextThread->priority\<close> is read before the test for null: the parked thread is not
  given the core and nothing is notified (lemma \<open>WakeParkedThread_alone\<close>, for every
  queue of at most one thread). With two threads or more on the caller's core the
  claim holds (lemma \<open>WakeParkedThread_claims\<close>).
\<close>

theorem WakeParkedThread_single:
  "parkedQueue parked_waiting \<noteq> []
   \<and> length (queue (cores parked_waiting ! coreId (threads parked_waiting 1))) = 1
   \<and> prio parked_waiting (hd (parkedQueue parked_waiting)) < prio parked_waiting 1
   \<and> WakeParkedThread 1 parked_waiting = Inl (NullDereference, parked_waiting)"
  by (simp add: WakeParkedThread_def sample_defs Let_def prio_def)

subsection \<open>C4: the core ParkThread moves the caller to\<close>

text \<open>
  C4, as amended. When at least one core other than the caller's own is admitted by the
  caller's affinity mask and has an empty queue or a front of strictly lower priority
  than the caller, \<open>ParkThread\<close> returns with the last such core in core-id order as the
  caller's \<open>coreId\<close>; the caller is inserted into that core's queue and the parked queue
  is not touched. (Core ids are the positions in \<open>cores\<close>, and \<open>ParkedCoreId\<close> is not one
  of them.)
\<close>

theorem ParkThread_chooses_last:
  assumes c: "coreId (threads st self) < length (cores st)"
      and ids: "\<forall>i < length (cores st). id_core (cores st ! i) = i"
      and sentinel: "length (cores st) \<le> ParkedCoreId"
      and qual: "park_admits st self k"
      and last: "\<forall>j. park_admits st self j \<longrightarrow> j \<le> k"
  shows "\<exists>s'. ParkThread self ParkedCoreId now others st = Inr (Some s')
           \<and> coreId (threads s' self) = k
           \<and> parkedQueue s' = parkedQueue st
           \<and> queue (cores s' ! k) =
               insert_at (upper_bound st (queue (cores st ! k)) (prio st self)) self
                 (queue (cores st ! k))"
proof -
  let ?o = "coreId (threads st self)"
  from RemoveThread_effect [OF c, of now] obtain s1 where
    rem: "RemoveThread self now st = Inr s1"
    and cs1: "cores s1 = (cores st)[?o := (cores st ! ?o)\<lparr>queue := remove1 self (queue (cores st ! ?o))\<rparr>]"
    and pq1: "parkedQueue s1 = parkedQueue st"
    and pr1: "prio s1 = prio st"
    and cid1: "\<forall>u. coreId (threads s1 u) = coreId (threads st u)"
    and am1: "\<forall>u. affinityMask (threads s1 u) = affinityMask (threads st u)"
    by blast
  define s2 where "s2 = upd_thread self (\<lambda>k. k\<lparr>coreId := ParkedCoreId\<rparr>) s1"
  define X where "X = foldl (\<lambda>a core. if park_cond s2 self ?o core then id_core core else a)
        (coreId (threads s2 self)) (cores s2)"
  define s3 where "s3 = foldl (park_scan self ?o) s2 (cores s2)"
  have s3: "s3 = upd_thread self (\<lambda>k. k\<lparr>coreId := X\<rparr>) s2"
    unfolding s3_def X_def by (rule park_scan_fold)
  have kk: "k < length (cores st)" "k \<noteq> ?o" using qual by (simp_all add: park_admits_def)
  have len: "length (cores s2) = length (cores st)" by (simp add: s2_def cs1)
  have pr2: "prio s2 = prio st" by (simp add: s2_def pr1 prio_upd_thread)
  have am2: "affinityMask (threads s2 self) = affinityMask (threads st self)"
    by (simp add: s2_def am1)
  have core_j: "cores s2 ! j = cores st ! j" if "j \<noteq> ?o" for j
    using that by (simp add: s2_def cs1)
  have id_j: "id_core (cores s2 ! j) = j" if "j < length (cores st)" for j
    using that ids c by (cases "j = ?o") (simp_all add: s2_def cs1)
  have cond: "park_cond s2 self ?o (cores s2 ! j) = park_admits st self j"
    if j: "j < length (cores st)" for j
  proof (cases "j = ?o")
    case True
    with id_j [OF j] show ?thesis by (simp add: park_cond_def park_admits_def)
  next
    case False
    with id_j [OF j] core_j [OF False] j show ?thesis
      by (auto simp: park_cond_def park_admits_def pr2 am2)
  qed
  have "X = id_core (cores s2 ! k)"
    unfolding X_def
  proof (rule last_qualifying)
    show "k < length (cores s2)" using kk len by simp
    show "park_cond s2 self ?o (cores s2 ! k)" using cond [OF kk(1)] qual by simp
    show "\<forall>j<length (cores s2). park_cond s2 self ?o (cores s2 ! j) \<longrightarrow> j \<le> k"
      using cond last len by simp
  qed
  with id_j [OF kk(1)] have X: "X = k" by simp
  have cid3: "coreId (threads s3 self) = k" by (simp add: s3 X)
  have cs3: "cores s3 = cores s1" by (simp add: s3 s2_def)
  have pr3: "prio s3 = prio st" by (simp add: s3 pr2 prio_upd_thread)
  have pq3: "parkedQueue s3 = parkedQueue st" by (simp add: s3 s2_def pq1)
  have q3: "queue (cores s3 ! k) = queue (cores st ! k)" using kk by (simp add: cs3 cs1)
  have c3: "coreId (threads s3 self) < length (cores s3)" using kk by (simp add: cid3 cs3 cs1)
  from InsertThread_effect [OF c3, of self] obtain s6 where
    ins: "InsertThread self self s3 = Inr s6"
    and cs6: "cores s6 = (cores s3)[coreId (threads s3 self) :=
            (cores s3 ! coreId (threads s3 self))\<lparr>queue :=
               insert_at (insert_pos self self s3) self
                 (queue (cores s3 ! coreId (threads s3 self)))\<rparr>]"
    and pq6: "parkedQueue s6 = parkedQueue s3"
    and cid6: "\<forall>u. coreId (threads s6 u) = coreId (threads s3 u)"
    by blast
  have pos: "insert_pos self self s3 = upper_bound st (queue (cores st ! k)) (prio st self)"
    by (simp add: insert_pos_def Let_def cid3 q3 pr3 upper_bound_cong [OF pr3])
  have q6: "queue (cores s6 ! k) =
      insert_at (upper_bound st (queue (cores st ! k)) (prio st self)) self (queue (cores st ! k))"
    using kk by (simp add: cs6 cid3 cs3 cs1 pos)
  have ne: "k \<noteq> ParkedCoreId" using kk sentinel by simp
  have pt: "park_target self ParkedCoreId s1 = s3"
    by (simp add: park_target_def Let_def s3_def s2_def cid1)
  have "ParkThread self ParkedCoreId now others st = Inr (Some s6)"
    using rem ins cid3 ne by (simp add: ParkThread_def Let_def pt)
  with cid6 cid3 pq6 pq3 q6 show ?thesis by simp
qed

theorem ParkThread_chooses_last_witness:
  "coreId (threads park_two 6) < length (cores park_two)
   \<and> length (cores park_two) \<le> 4
   \<and> park_admits park_two 6 1 \<and> park_admits park_two 6 2
   \<and> (\<exists>s'. ParkThread 6 4 0 [] park_two = Inr (Some s')
         \<and> coreId (threads s' 6) = 2 \<and> parkedQueue s' = [] \<and> queue (cores s' ! 2) = [6])"
proof -
  have h1: "coreId (threads park_two 6) < length (cores park_two)"
    by (simp add: sample_defs)
  have h2: "\<forall>i < length (cores park_two). id_core (cores park_two ! i) = i"
    by (auto simp: sample_defs nth_Cons split: nat.splits)
  have h3: "length (cores park_two) \<le> 4" by (simp add: sample_defs)
  have h4: "park_admits park_two 6 2" by (simp add: park_two_admits)
  have h5: "\<forall>j. park_admits park_two 6 j \<longrightarrow> j \<le> 2" by (auto simp: park_two_admits)
  have q: "queue (cores park_two ! 2) = []" "parkedQueue park_two = []"
    by (simp_all add: sample_defs)
  from ParkThread_chooses_last [OF h1 h2 h3 h4 h5, of 0 "[]"]
  have "\<exists>s'. ParkThread 6 4 0 [] park_two = Inr (Some s')
         \<and> coreId (threads s' 6) = 2 \<and> parkedQueue s' = [] \<and> queue (cores s' ! 2) = [6]"
    unfolding q by (simp add: upper_bound_def bound_search.simps)
  with h1 h3 h4 show ?thesis by (simp add: park_two_admits)
qed

text \<open>
  C4 as stated fails: cores 1 and 2 both qualify for thread 6, which is moved to
  core 2, not to the first of them.
\<close>

theorem ParkThread_not_first:
  "test (affinityMask (threads park_two 6)) 1 \<and> queue (cores park_two ! 1) = []
   \<and> ParkThread 6 4 0 [] park_two = Inr (Some park_two_moved)
   \<and> coreId (threads park_two_moved 6) = 2"
proof -
  have "test (affinityMask (threads park_two 6)) 1 \<and> queue (cores park_two ! 1) = []"
    by (simp add: sample_defs test_def)
  moreover have "ParkThread 6 4 0 [] park_two = Inr (Some park_two_moved)"
    by (simp add: ParkThread_def RemoveThread_def erase_self_def park_target_def
      clear_preemption_def InsertThread_def park_scan_def Let_def test_def
      erase_at_def insert_at_def search_defs sample_defs upd_thread_def set_queue_def
      emit_def fun_upd_idem_iff)
  moreover have "coreId (threads park_two_moved 6) = 2" by (simp add: sample_defs)
  ultimately show ?thesis by blast
qed

subsection \<open>C2: the order of the ready queues\<close>

text \<open>
  C2, as amended. When every core's queue is sorted by ascending priority before the
  operation:
  \<^item> \<open>InsertThread\<close> puts the thread behind every queued thread of its own or higher
    priority, keeping the order of the others and every other queue, and leaves every
    queue sorted, unless a thread other than the caller is inserted with strictly higher
    priority than the front of a queue that is not empty: that thread is put directly
    behind the front, so that its queue is sorted only from the second thread on;
  \<^item> \<open>Rotate\<close> moves a caller at the front behind its priority band, changes no queue
    otherwise, and leaves every queue sorted;
  \<^item> \<open>RemoveThread\<close> erases the caller from its queue, changes no other queue, and
    leaves every queue sorted;
  \<^item> \<open>UpdatePriority\<close> leaves every queue sorted;
  \<^item> \<open>LoadBalance\<close> changes no queue when it inserts nothing and the thread stays on its
    core. Otherwise the queues are those it found (the thread erased from its old queue
    when it was moved without \<open>alwaysInsert\<close>), with the thread inserted into the queue of
    the core it now belongs to, in the way of \<open>InsertThread\<close>: behind every queued thread
    of its own or higher priority, unless a thread other than the caller has strictly
    higher priority than the front of that queue, which is not empty; it is then put
    directly behind the front. Every queue is sorted afterwards, except in that last
    case, where the thread's queue is sorted from the second thread on;
  \<^item> \<open>ParkThread\<close>, when it returns, leaves every queue sorted, provided the other
    threads kept the queues sorted while the caller was parked: the caller has been
    inserted into the queue of its new core behind every queued thread of its own or
    higher priority, all queues being sorted before that insertion. When no other
    thread runs in between, the queues before that insertion are those before the call
    with the caller erased from its old queue.

  And \<open>UpdatePriority\<close> of a queued thread that is not the front, whose queue is sorted
  apart from that thread (its priority has just changed), puts it back behind every
  thread of its own or higher priority, changes no other queue, and leaves every queue
  sorted, unless the thread now has strictly higher priority than the front: it is then
  put directly behind the front.
\<close>

theorem queue_order:
  "(all_sorted st \<longrightarrow>
       (\<forall>st'. InsertThread self t st = Inr st' \<longrightarrow>
            cores st' = (cores st)[coreId (threads st t) := (cores st ! coreId (threads st t))
              \<lparr>queue :=
                 (if dethrones self t st
                  then behind_front t (queue (cores st ! coreId (threads st t)))
                  else placed st t (queue (cores st ! coreId (threads st t))))\<rparr>]
            \<and> sorted_but_front st' (coreId (threads st t))
            \<and> (\<not> dethrones self t st \<longrightarrow> all_sorted st'))
       \<and> (\<forall>st'. Rotate self cooperative now st = Inr st' \<longrightarrow>
            cores st' =
              (if hd (queue (cores st ! coreId (threads st self))) = self
               then (cores st)[coreId (threads st self) := (cores st ! coreId (threads st self))
                 \<lparr>queue := placed st self (tl (queue (cores st ! coreId (threads st self))))\<rparr>]
               else cores st)
            \<and> all_sorted st')
       \<and> (\<forall>st'. RemoveThread self now st = Inr st' \<longrightarrow>
            cores st' = vacated self st \<and> all_sorted st')
       \<and> (\<forall>st'. UpdatePriority t st = Inr st' \<longrightarrow> all_sorted st')
       \<and> (\<forall>st' c. LoadBalance self t alwaysInsert now nowAt st = Inr (st', c) \<longrightarrow>
            sorted_but_front st' (coreId (threads st' t))
            \<and> (t = self \<or> \<not> alwaysInsert \<longrightarrow> all_sorted st')
            \<and> (\<not> outranks st self t
                    (queue (lb_before alwaysInsert t st ! coreId (threads st' t)))
                 \<longrightarrow> all_sorted st')
            \<and> (alwaysInsert \<or> c \<noteq> coreId (threads st t) \<longrightarrow>
                 cores st' = (lb_before alwaysInsert t st)[coreId (threads st' t) :=
                   (lb_before alwaysInsert t st ! coreId (threads st' t))
                   \<lparr>queue :=
                      (if outranks st self t
                            (queue (lb_before alwaysInsert t st ! coreId (threads st' t)))
                       then behind_front t
                              (queue (lb_before alwaysInsert t st ! coreId (threads st' t)))
                       else placed st t
                              (queue (lb_before alwaysInsert t st ! coreId (threads st' t))))\<rparr>])
            \<and> (\<not> alwaysInsert \<and> c = coreId (threads st t) \<longrightarrow> cores st' = cores st))
       \<and> ((\<forall>other\<in>set others. \<forall>s. all_sorted s \<longrightarrow> all_sorted (other s)) \<longrightarrow>
            (\<forall>st'. ParkThread self ParkedCoreId now others st = Inr (Some st') \<longrightarrow>
               all_sorted st'
               \<and> (\<exists>sb. all_sorted sb
                     \<and> cores st' = (cores sb)[coreId (threads st' self) :=
                         (cores sb ! coreId (threads st' self))
                         \<lparr>queue := placed sb self
                                     (queue (cores sb ! coreId (threads st' self)))\<rparr>])))
       \<and> (\<forall>st'. ParkThread self ParkedCoreId now [] st = Inr (Some st') \<longrightarrow>
            cores st' = (vacated self st)[coreId (threads st' self) :=
              (vacated self st ! coreId (threads st' self))
              \<lparr>queue := placed st self
                          (queue (vacated self st ! coreId (threads st' self)))\<rparr>]))
   \<and> (coreId (threads st t) < length (cores st)
       \<and> t \<in> set (queue (cores st ! coreId (threads st t)))
       \<and> hd (queue (cores st ! coreId (threads st t))) \<noteq> t
       \<and> sorted (map (prio st) (remove1 t (queue (cores st ! coreId (threads st t)))))
       \<and> (\<forall>d < length (cores st). d \<noteq> coreId (threads st t) \<longrightarrow> queue_sorted st d)
       \<longrightarrow> (\<exists>st'. UpdatePriority t st = Inr st'
             \<and> cores st' = (cores st)[coreId (threads st t) := (cores st ! coreId (threads st t))
                 \<lparr>queue :=
                    (if prio st t < prio st (hd (queue (cores st ! coreId (threads st t))))
                     then behind_front t (remove1 t (queue (cores st ! coreId (threads st t))))
                     else placed st t (remove1 t (queue (cores st ! coreId (threads st t)))))\<rparr>]
             \<and> (\<not> prio st t < prio st (hd (queue (cores st ! coreId (threads st t))))
                  \<longrightarrow> all_sorted st')))"
proof (intro conjI allI impI)
  fix st' assume s: "all_sorted st" and i: "InsertThread self t st = Inr st'"
  from InsertThread_order [OF s i]
  show "cores st' = (cores st)[coreId (threads st t) := (cores st ! coreId (threads st t))
              \<lparr>queue :=
                 (if dethrones self t st
                  then behind_front t (queue (cores st ! coreId (threads st t)))
                  else placed st t (queue (cores st ! coreId (threads st t))))\<rparr>]"
    by (rule conjunct1)
  show "sorted_but_front st' (coreId (threads st t))"
    by (rule InsertThread_but_front [OF s i])
  assume "\<not> dethrones self t st"
  with InsertThread_order [OF s i] show "all_sorted st'" by simp
next
  fix st' assume s: "all_sorted st" and r: "Rotate self cooperative now st = Inr st'"
  from Rotate_order [OF s r]
  show "cores st' =
              (if hd (queue (cores st ! coreId (threads st self))) = self
               then (cores st)[coreId (threads st self) := (cores st ! coreId (threads st self))
                 \<lparr>queue := placed st self (tl (queue (cores st ! coreId (threads st self))))\<rparr>]
               else cores st)"
    by (rule conjunct1)
  from Rotate_order [OF s r] show "all_sorted st'" by simp
next
  fix st' assume s: "all_sorted st" and r: "RemoveThread self now st = Inr st'"
  from RemoveThread_order [OF s r] show "cores st' = vacated self st"
    unfolding vacated_def by (rule conjunct1)
  from RemoveThread_order [OF s r] show "all_sorted st'" by simp
next
  fix st' assume "all_sorted st" and "UpdatePriority t st = Inr st'"
  then show "all_sorted st'" by (rule UpdatePriority_sorted)
next
  fix st' c
  assume s: "all_sorted st" and r: "LoadBalance self t alwaysInsert now nowAt st = Inr (st', c)"
  note o = LoadBalance_order [OF s r]
  note p = LoadBalance_place [OF s r]
  from o show "sorted_but_front st' (coreId (threads st' t))" by simp
  {
    assume "t = self \<or> \<not> alwaysInsert"
    with o show "all_sorted st'" by simp
  }
  {
    assume "\<not> outranks st self t (queue (lb_before alwaysInsert t st ! coreId (threads st' t)))"
    with p show "all_sorted st'" by blast
  }
  {
    assume "alwaysInsert \<or> c \<noteq> coreId (threads st t)"
    with p show "cores st' = (lb_before alwaysInsert t st)[coreId (threads st' t) :=
                   (lb_before alwaysInsert t st ! coreId (threads st' t))
                   \<lparr>queue :=
                      (if outranks st self t
                            (queue (lb_before alwaysInsert t st ! coreId (threads st' t)))
                       then behind_front t
                              (queue (lb_before alwaysInsert t st ! coreId (threads st' t)))
                       else placed st t
                              (queue (lb_before alwaysInsert t st ! coreId (threads st' t))))\<rparr>]"
      by (elim conjE) (erule mp)
  }
  {
    assume "\<not> alwaysInsert \<and> c = coreId (threads st t)"
    with p [THEN conjunct2, THEN conjunct1] show "cores st' = cores st" by (rule mp)
  }
next
  fix st'
  assume s: "all_sorted st"
    and env: "\<forall>other\<in>set others. \<forall>s. all_sorted s \<longrightarrow> all_sorted (other s)"
    and r: "ParkThread self ParkedCoreId now others st = Inr (Some st')"
  note p = ParkThread_place [OF s env r]
  from p show "all_sorted st'" by (rule conjunct1)
  from p show "\<exists>sb. all_sorted sb
                     \<and> cores st' = (cores sb)[coreId (threads st' self) :=
                         (cores sb ! coreId (threads st' self))
                         \<lparr>queue := placed sb self
                                     (queue (cores sb ! coreId (threads st' self)))\<rparr>]"
    by blast
next
  fix st'
  assume s: "all_sorted st"
    and r: "ParkThread self ParkedCoreId now [] st = Inr (Some st')"
  have "\<forall>other\<in>set []. \<forall>s. all_sorted s \<longrightarrow> all_sorted (other s)" by simp
  from ParkThread_place [OF s this r] obtain sb where
    c: "cores st' = (cores sb)[coreId (threads st' self) :=
                  (cores sb ! coreId (threads st' self))
                  \<lparr>queue := placed sb self (queue (cores sb ! coreId (threads st' self)))\<rparr>]"
    and b: "cores sb = vacated self st" and pr: "prio sb = prio st"
    by blast
  show "cores st' = (vacated self st)[coreId (threads st' self) :=
              (vacated self st ! coreId (threads st' self))
              \<lparr>queue := placed st self
                          (queue (vacated self st ! coreId (threads st' self)))\<rparr>]"
    using c unfolding b placed_cong [OF pr] .
next
  assume h: "coreId (threads st t) < length (cores st)
       \<and> t \<in> set (queue (cores st ! coreId (threads st t)))
       \<and> hd (queue (cores st ! coreId (threads st t))) \<noteq> t
       \<and> sorted (map (prio st) (remove1 t (queue (cores st ! coreId (threads st t)))))
       \<and> (\<forall>d < length (cores st). d \<noteq> coreId (threads st t) \<longrightarrow> queue_sorted st d)"
  then have c: "coreId (threads st t) < length (cores st)"
    and inq: "t \<in> set (queue (cores st ! coreId (threads st t)))"
    and nh: "hd (queue (cores st ! coreId (threads st t))) \<noteq> t"
    and sq: "sorted (map (prio st) (remove1 t (queue (cores st ! coreId (threads st t)))))"
    and o: "\<forall>d < length (cores st). d \<noteq> coreId (threads st t) \<longrightarrow> queue_sorted st d"
    by blast+
  from UpdatePriority_order [OF c inq nh sq o]
  show "\<exists>st'. UpdatePriority t st = Inr st'
             \<and> cores st' = (cores st)[coreId (threads st t) := (cores st ! coreId (threads st t))
                 \<lparr>queue :=
                    (if prio st t < prio st (hd (queue (cores st ! coreId (threads st t))))
                     then behind_front t (remove1 t (queue (cores st ! coreId (threads st t))))
                     else placed st t (remove1 t (queue (cores st ! coreId (threads st t)))))\<rparr>]
             \<and> (\<not> prio st t < prio st (hd (queue (cores st ! coreId (threads st t))))
                  \<longrightarrow> all_sorted st')"
    by blast
qed

theorem queue_order_witness:
  "all_sorted fifo_band \<and> all_sorted pinned
   \<and> (\<exists>st'. InsertThread 9 8 fifo_band = Inr st'
          \<and> cores st' = four_cores [5, 6, 7, 8] [] [] [] \<and> all_sorted st')
   \<and> (\<exists>st'. Rotate 5 True 8 fifo_band = Inr st'
          \<and> cores st' = four_cores [6, 7, 5] [] [] [] \<and> all_sorted st')
   \<and> (\<exists>st'. RemoveThread 6 8 fifo_band = Inr st'
          \<and> cores st' = four_cores [5, 7] [] [] [] \<and> all_sorted st')
   \<and> (\<exists>st'. UpdatePriority 7 fifo_band = Inr st' \<and> all_sorted st')
   \<and> (\<exists>st'. LoadBalance 6 6 False 8 (\<lambda>i. 0) fifo_band = Inr (st', 1)
          \<and> cores st' = four_cores [5, 7] [6] [] [] \<and> all_sorted st')
   \<and> (\<exists>st'. LoadBalance 4 8 True 8 (\<lambda>i. 0) pinned = Inr (st', 0)
          \<and> cores st' = four_cores [5, 6, 7, 8] [] [] [] \<and> all_sorted st')
   \<and> (\<exists>st'. LoadBalance 4 9 True 8 (\<lambda>i. 0) pinned = Inr (st', 0)
          \<and> cores st' = four_cores [5, 9, 6, 7] [] [] [])
   \<and> (\<exists>st'. ParkThread 7 4 8 [] fifo_band = Inr (Some st')
          \<and> cores st' = four_cores [5, 6] [] [] [7] \<and> all_sorted st')
   \<and> (\<exists>st'. UpdatePriority 7 raised = Inr st' \<and> cores st' = four_cores [5, 7, 6] [] [] [])"
proof -
  note sc = sample_cores four_cores_queue four_cores_update sample_placed sample_outranks
  have v: "coreId (threads fifo_band u) < length (cores fifo_band)" for u
    by (simp add: sc)
  have vac: "vacated u fifo_band = four_cores (remove1 u [5, 6, 7]) [] [] []" for u
    by (simp add: vacated_def sc)
  have ins: "\<exists>st'. InsertThread 9 8 fifo_band = Inr st'"
    using InsertThread_effect [of fifo_band 8 9, OF v] by blast
  from queue_order [where st = fifo_band and self = 9 and t = 8,
          THEN conjunct1, THEN mp, OF fifo_band_sorted, THEN conjunct1] ins
  have a1: "\<exists>st'. InsertThread 9 8 fifo_band = Inr st'
          \<and> cores st' = four_cores [5, 6, 7, 8] [] [] [] \<and> all_sorted st'"
    by (auto simp: sc)
  from queue_order [where st = fifo_band and self = 5 and cooperative = True and now = 8,
          THEN conjunct1, THEN mp, OF fifo_band_sorted, THEN conjunct2, THEN conjunct1]
    fifo_band_runs(1)
  have a2: "\<exists>st'. Rotate 5 True 8 fifo_band = Inr st'
          \<and> cores st' = four_cores [6, 7, 5] [] [] [] \<and> all_sorted st'"
    by (auto simp: sc)
  have rem: "\<exists>st'. RemoveThread 6 8 fifo_band = Inr st'"
    using RemoveThread_effect [of fifo_band 6 8, OF v] by blast
  from queue_order [where st = fifo_band and self = 6 and now = 8,
          THEN conjunct1, THEN mp, OF fifo_band_sorted, THEN conjunct2, THEN conjunct2,
          THEN conjunct1] rem
  have a3: "\<exists>st'. RemoveThread 6 8 fifo_band = Inr st'
          \<and> cores st' = four_cores [5, 7] [] [] [] \<and> all_sorted st'"
    by (auto simp: vac)
  from queue_order [where st = fifo_band and t = 7,
          THEN conjunct1, THEN mp, OF fifo_band_sorted, THEN conjunct2, THEN conjunct2,
          THEN conjunct2, THEN conjunct1]
    fifo_band_runs(2)
  have a4: "\<exists>st'. UpdatePriority 7 fifo_band = Inr st' \<and> all_sorted st'" by auto
  from fifo_band_moves obtain m where
    m: "LoadBalance 6 6 False 8 (\<lambda>i. 0) fifo_band = Inr (m, 1)" "coreId (threads m 6) = Suc 0"
    by auto
  from queue_order [where st = fifo_band and self = 6 and t = 6 and alwaysInsert = False
            and now = 8 and nowAt = "\<lambda>i. 0",
          THEN conjunct1, THEN mp, OF fifo_band_sorted, THEN conjunct2, THEN conjunct2,
          THEN conjunct2, THEN conjunct2, THEN conjunct1, THEN spec, THEN spec, THEN mp, OF m(1)]
  have "cores m = four_cores [5, 7] [6] [] [] \<and> all_sorted m"
    by (simp add: m(2) lb_before_def vac sc)
  with m(1) have a5: "\<exists>st'. LoadBalance 6 6 False 8 (\<lambda>i. 0) fifo_band = Inr (st', 1)
          \<and> cores st' = four_cores [5, 7] [6] [] [] \<and> all_sorted st'"
    by blast
  from pinned_balance [of 8] obtain p where
    p: "LoadBalance 4 8 True 8 (\<lambda>i. 0) pinned = Inr (p, 0)" "coreId (threads p 8) = 0"
    by auto
  from queue_order [where st = pinned and self = 4 and t = 8 and alwaysInsert = True
            and now = 8 and nowAt = "\<lambda>i. 0",
          THEN conjunct1, THEN mp, OF pinned_sorted, THEN conjunct2, THEN conjunct2,
          THEN conjunct2, THEN conjunct2, THEN conjunct1, THEN spec, THEN spec, THEN mp, OF p(1)]
  have "cores p = four_cores [5, 6, 7, 8] [] [] [] \<and> all_sorted p"
    by (simp add: p(2) lb_before_def sc)
  with p(1) have a6: "\<exists>st'. LoadBalance 4 8 True 8 (\<lambda>i. 0) pinned = Inr (st', 0)
          \<and> cores st' = four_cores [5, 6, 7, 8] [] [] [] \<and> all_sorted st'"
    by blast
  from pinned_balance [of 9] obtain p' where
    p': "LoadBalance 4 9 True 8 (\<lambda>i. 0) pinned = Inr (p', 0)" "coreId (threads p' 9) = 0"
    by auto
  from queue_order [where st = pinned and self = 4 and t = 9 and alwaysInsert = True
            and now = 8 and nowAt = "\<lambda>i. 0",
          THEN conjunct1, THEN mp, OF pinned_sorted, THEN conjunct2, THEN conjunct2,
          THEN conjunct2, THEN conjunct2, THEN conjunct1, THEN spec, THEN spec, THEN mp, OF p'(1)]
  have "cores p' = four_cores [5, 9, 6, 7] [] [] []"
    by (simp add: p'(2) lb_before_def behind_front_def sc)
  with p'(1) have a7: "\<exists>st'. LoadBalance 4 9 True 8 (\<lambda>i. 0) pinned = Inr (st', 0)
          \<and> cores st' = four_cores [5, 9, 6, 7] [] [] []"
    by blast
  from fifo_band_parks obtain k where
    k: "ParkThread 7 4 8 [] fifo_band = Inr (Some k)" "coreId (threads k 7) = 3"
    by auto
  have env: "\<forall>other\<in>set []. \<forall>s. all_sorted s \<longrightarrow> all_sorted (other s)" by simp
  from queue_order [where st = fifo_band and self = 7 and ParkedCoreId = 4 and now = 8
            and others = "[]",
          THEN conjunct1, THEN mp, OF fifo_band_sorted, THEN conjunct2, THEN conjunct2,
          THEN conjunct2, THEN conjunct2, THEN conjunct2, THEN conjunct1, THEN mp, OF env,
          THEN spec, THEN mp, OF k(1)]
  have "all_sorted k" by (rule conjunct1)
  moreover
  from queue_order [where st = fifo_band and self = 7 and ParkedCoreId = 4 and now = 8,
          THEN conjunct1, THEN mp, OF fifo_band_sorted, THEN conjunct2, THEN conjunct2,
          THEN conjunct2, THEN conjunct2, THEN conjunct2, THEN conjunct2,
          THEN spec, THEN mp, OF k(1)]
  have "cores k = four_cores [5, 6] [] [] [7]"
    by (simp add: k(2) vac sc)
  ultimately have a8: "\<exists>st'. ParkThread 7 4 8 [] fifo_band = Inr (Some st')
          \<and> cores st' = four_cores [5, 6] [] [] [7] \<and> all_sorted st'"
    using k(1) by blast
  have h: "coreId (threads raised 7) < length (cores raised)
       \<and> 7 \<in> set (queue (cores raised ! coreId (threads raised 7)))
       \<and> hd (queue (cores raised ! coreId (threads raised 7))) \<noteq> 7
       \<and> sorted (map (prio raised) (remove1 7 (queue (cores raised ! coreId (threads raised 7)))))
       \<and> (\<forall>d < length (cores raised). d \<noteq> coreId (threads raised 7) \<longrightarrow> queue_sorted raised d)"
    by (auto simp: sample_defs prio_def queue_sorted_def nth_Cons split: nat.splits)
  from queue_order [where st = raised and t = 7, THEN conjunct2, THEN mp, OF h]
  have a9: "\<exists>st'. UpdatePriority 7 raised = Inr st' \<and> cores st' = four_cores [5, 7, 6] [] [] []"
    by (auto simp: sc behind_front_def)
  from fifo_band_sorted pinned_sorted a1 a2 a3 a4 a5 a6 a7 a8 a9 show ?thesis by blast
qed

text \<open>
  C2 as stated fails: thread 1 (priority 40) runs on core 0 and another thread inserts
  thread 2 (priority 30). Thread 2 is put behind thread 1, and the queue of core 0,
  sorted before, has the priorities 40, 30.
\<close>

theorem InsertThread_unsorted:
  "all_sorted one_running
   \<and> InsertThread 9 2 one_running = Inr deferred
   \<and> map (prio deferred) (queue (cores deferred ! 0)) = [40, 30]
   \<and> \<not> queue_sorted deferred 0"
proof -
  have "InsertThread 9 2 one_running = Inr deferred"
    by (simp add: InsertThread_def sample_defs Let_def search_defs insert_at_def
        set_queue_def emit_def)
  moreover have "map (prio deferred) (queue (cores deferred ! 0)) = [40, 30]"
    by (simp add: sample_defs prio_def)
  moreover from this have "\<not> queue_sorted deferred 0" by (simp add: queue_sorted_def)
  ultimately show ?thesis using one_running_sorted by blast
qed

end
